theory Spec2Isabelle
  imports Complex_Main "HOL-Library.Word" "HOL-Library.Sublist" "HOL-Library.Multiset"
begin

section \<open>Prefix trie and anomaly detectors of the data-cleaning scripts\<close>

text \<open>
  The development embeds the Go sources \<^verbatim>\<open>trie.go\<close>, \<^verbatim>\<open>calc_distribution.go\<close>,
  \<^verbatim>\<open>prefix_extractor.go\<close>, \<^verbatim>\<open>standalone_to_ratio_stats.go\<close> and
  \<^verbatim>\<open>for_identify_passwords.go\<close>.

  Modelling conventions.
  \<^item> A Go string is represented by the sequence of code points that \<^verbatim>\<open>for _, char := range s\<close>
    yields; \<open>rune\<close> is Go's \<^verbatim>\<open>int32\<close>. The UTF-8 decoding itself is not part of the model:
    a byte that is not valid UTF-8 is yielded as U+FFFD, so two Go strings with the same
    sequence of code points are the same word here.
  \<^item> A Go \<^verbatim>\<open>map[rune]V\<close> that is iterated is an association list whose keys are kept
    distinct by every update; the list order stands for one of the iteration orders Go may choose.
  \<^item> Go's 64-bit \<^verbatim>\<open>int\<close> counters are \<open>int\<close>: a counter is bounded by the number of
    \<^verbatim>\<open>Insert\<close> calls, which stays far below \<open>2^63\<close>. Where an index is computed by a
    multiplication the 64-bit wrap-around is written out.
  \<^item> \<^verbatim>\<open>float64\<close> values are idealised as \<open>real\<close>, without rounding. The one division
    by zero that the code can reach, the average of an empty slice, is made explicit; the
    divisor of the outlier detector is shown to be at least 1 on every trie built by
    insertions, and the statements about its quotient are made for such tries.
  \<^item> A run-time panic is a value \<open>Inl\<close> of a sum type.
\<close>

subsection \<open>The trie of \<^verbatim>\<open>trie.go\<close>\<close>

type_synonym rune = "32 word"

datatype TrieNode = TrieNode (children: "(rune \<times> TrieNode) list") (endOfWordCount: int)

record Trie =
  root :: TrieNode

text \<open>The node literal \<^verbatim>\<open>&TrieNode{children: make(map[rune]*TrieNode)}\<close>.\<close>

definition newNode :: TrieNode where
  "newNode = TrieNode [] 0"

definition NewTrie :: Trie where
  "NewTrie = \<lparr> root = newNode \<rparr>"

text \<open>
  The map store \<^verbatim>\<open>children[char] = n\<close>: an existing key keeps its place and gets the
  new value, a fresh key is added.
\<close>

fun setChild :: "rune \<Rightarrow> TrieNode \<Rightarrow> (rune \<times> TrieNode) list \<Rightarrow> (rune \<times> TrieNode) list" where
  "setChild c n [] = [(c, n)]"
| "setChild c n ((k, m) # kids) = (if k = c then (c, n) # kids else (k, m) # setChild c n kids)"

text \<open>
  \<^verbatim>\<open>Insert\<close> walks down from the root, creating missing nodes, and increments the counter
  of the node it ends at. The Go code mutates the nodes on the path in place; the model
  rebuilds that path.
\<close>

fun insertFrom :: "TrieNode \<Rightarrow> rune list \<Rightarrow> TrieNode" where
  "insertFrom node [] = TrieNode (children node) (endOfWordCount node + 1)"
| "insertFrom node (char # rest) =
     (case map_of (children node) char of
        None \<Rightarrow>
          TrieNode (setChild char (insertFrom newNode rest) (children node)) (endOfWordCount node)
      | Some child \<Rightarrow>
          TrieNode (setChild char (insertFrom child rest) (children node)) (endOfWordCount node))"

definition Insert :: "Trie \<Rightarrow> rune list \<Rightarrow> Trie" where
  "Insert t word = \<lparr> root = insertFrom (root t) word \<rparr>"

fun countWordsInSubTrie :: "TrieNode \<Rightarrow> int" where
  "countWordsInSubTrie (TrieNode kids cnt) =
     foldl (\<lambda>count child. count + countWordsInSubTrie child) cnt (map snd kids)"

fun countPrefixFrom :: "TrieNode \<Rightarrow> rune list \<Rightarrow> int" where
  "countPrefixFrom node [] = countWordsInSubTrie node"
| "countPrefixFrom node (char # rest) =
     (case map_of (children node) char of
        None \<Rightarrow> 0
      | Some child \<Rightarrow> countPrefixFrom child rest)"

definition CountWordsWithPrefix :: "Trie \<Rightarrow> rune list \<Rightarrow> int" where
  "CountWordsWithPrefix t p = countPrefixFrom (root t) p"

fun standaloneFrom :: "TrieNode \<Rightarrow> rune list \<Rightarrow> int" where
  "standaloneFrom node [] = endOfWordCount node"
| "standaloneFrom node (char # rest) =
     (case map_of (children node) char of
        None \<Rightarrow> 0
      | Some child \<Rightarrow> standaloneFrom child rest)"

definition CountStandaloneOccurrences :: "Trie \<Rightarrow> rune list \<Rightarrow> int" where
  "CountStandaloneOccurrences t p = standaloneFrom (root t) p"

text \<open>A trie built from an empty one by a sequence of \<^verbatim>\<open>Insert\<close> calls.\<close>

definition buildTrie :: "rune list list \<Rightarrow> Trie" where
  "buildTrie ws = foldl Insert NewTrie ws"

text \<open>The node a path leads to, if the path exists in the trie.\<close>

fun nodeAt :: "TrieNode \<Rightarrow> rune list \<Rightarrow> TrieNode option" where
  "nodeAt node [] = Some node"
| "nodeAt node (char # rest) =
     (case map_of (children node) char of
        None \<Rightarrow> None
      | Some child \<Rightarrow> nodeAt child rest)"

text \<open>
  Two invariants of the nodes: every child has a subtree total of at least one and no
  end-of-word count is negative; the keys of every children map are distinct.
\<close>

fun positiveNode :: "TrieNode \<Rightarrow> bool" where
  "positiveNode (TrieNode kids cnt) =
     (0 \<le> cnt \<and>
      list_all (\<lambda>child. 1 \<le> countWordsInSubTrie child \<and> positiveNode child) (map snd kids))"

fun distinctKeys :: "TrieNode \<Rightarrow> bool" where
  "distinctKeys (TrieNode kids cnt) =
     (distinct (map fst kids) \<and> list_all distinctKeys (map snd kids))"

subsection \<open>Qualifying prefixes and following characters\<close>

text \<open>
  \<^verbatim>\<open>collectFollowingChars\<close> returns a \<^verbatim>\<open>map[rune]int\<close>: for the node of the prefix, each
  child character with the subtree total of that child; empty when the path does not exist.
\<close>

fun followingFrom :: "TrieNode \<Rightarrow> rune list \<Rightarrow> (rune \<times> int) list" where
  "followingFrom node [] =
     map (\<lambda>(childChar, childNode). (childChar, countWordsInSubTrie childNode)) (children node)"
| "followingFrom node (char # rest) =
     (case map_of (children node) char of
        None \<Rightarrow> []
      | Some child \<Rightarrow> followingFrom child rest)"

definition collectFollowingChars :: "Trie \<Rightarrow> rune list \<Rightarrow> (rune \<times> int) list" where
  "collectFollowingChars passTrie p = followingFrom (root passTrie) p"

text \<open>The loop \<^verbatim>\<open>for _, count := range followingCharCount { totalFollowingCount += count }\<close>.\<close>

definition totalFollowing :: "(rune \<times> int) list \<Rightarrow> int" where
  "totalFollowing followingCharCount =
     foldl (\<lambda>totalFollowingCount (char, cnt). totalFollowingCount + cnt) 0 followingCharCount"

text \<open>
  The depth-first traversal that appends to \<^verbatim>\<open>*results\<close> every path whose node has an
  end-of-word count above the threshold, and descends into every child.
\<close>

fun collectHighStandaloneRecursive ::
  "TrieNode \<Rightarrow> rune list \<Rightarrow> int \<Rightarrow> rune list list \<Rightarrow> rune list list" where
  "collectHighStandaloneRecursive (TrieNode kids cnt) currentPrefix occurrenceThreshold results =
     foldl (\<lambda>res (char, child).
              collectHighStandaloneRecursive child (currentPrefix @ [char]) occurrenceThreshold res)
       (if cnt > occurrenceThreshold then results @ [currentPrefix] else results)
       kids"

definition collectHighStandalone :: "Trie \<Rightarrow> int \<Rightarrow> rune list list" where
  "collectHighStandalone passTrie occurrenceThreshold =
     collectHighStandaloneRecursive (root passTrie) [] occurrenceThreshold []"

subsection \<open>The distribution aggregator of \<^verbatim>\<open>calc_distribution.go\<close>\<close>

text \<open>
  The global \<^verbatim>\<open>globalCharDistributions\<close> is a \<^verbatim>\<open>map[rune][]float64\<close> that is only read
  through \<^verbatim>\<open>globalCharDistributions[char]\<close>, which yields the nil slice for a missing key, and
  only written by storing a slice that has just been appended to. It is a function from
  characters to sample lists; the keys present in the Go map are the characters whose list
  is not empty.
\<close>

definition aggregateCharacterDistributions ::
  "(rune \<times> int) list \<Rightarrow> int \<Rightarrow> (rune \<Rightarrow> real list) \<Rightarrow> (rune \<Rightarrow> real list)" where
  "aggregateCharacterDistributions distributions tot globalCharDistributions =
     foldl (\<lambda>g (char, cnt).
              (let percentage = (real_of_int cnt / real_of_int tot) * 100
               in g(char := g char @ [percentage])))
       globalCharDistributions distributions"

text \<open>The body of the loop over the qualifying prefixes of one file.\<close>

definition aggregatePrefix ::
  "Trie \<Rightarrow> (rune \<Rightarrow> real list) \<Rightarrow> rune list \<Rightarrow> (rune \<Rightarrow> real list)" where
  "aggregatePrefix passTrie globalCharDistributions p =
     (let followingCharCount = collectFollowingChars passTrie p;
          totalFollowingCount = totalFollowing followingCharCount
      in if totalFollowingCount > 0
         then aggregateCharacterDistributions followingCharCount totalFollowingCount
                globalCharDistributions
         else globalCharDistributions)"

datatype panic = IndexOutOfRange

text \<open>
  Go's \<^verbatim>\<open>int\<close> arithmetic: a product wraps around to the signed 64-bit range, and \<^verbatim>\<open>/\<close>
  truncates towards zero.
\<close>

definition int64 :: "int \<Rightarrow> int" where
  "int64 x = (x + 2 ^ 63) mod 2 ^ 64 - 2 ^ 63"

definition quo :: "int \<Rightarrow> int \<Rightarrow> int" where
  "quo a b = sgn a * sgn b * (\<bar>a\<bar> div \<bar>b\<bar>)"

text \<open>
  \<^verbatim>\<open>calculateAverage\<close> divides the sum by \<^verbatim>\<open>float64(len(data))\<close>; for an empty slice the Go
  result is NaN, which is \<open>None\<close> here.
\<close>

definition calculateAverage :: "real list \<Rightarrow> real option" where
  "calculateAverage data =
     (let sum = foldl (\<lambda>sum v. sum + v) 0 data
      in if data = [] then None else Some (sum / real (length data)))"

text \<open>\<^verbatim>\<open>data[index]\<close> panics when the index is outside the slice.\<close>

definition calculatePercentile :: "real list \<Rightarrow> int \<Rightarrow> panic + real" where
  "calculatePercentile data percentile =
     (let n = int (length data);
          index = quo (int64 (percentile * n)) 100;
          index = (if index \<ge> n then n - 1 else index)
      in if 0 \<le> index \<and> index < n then Inr (data ! nat index) else Inl IndexOutOfRange)"

text \<open>The three entries \<^verbatim>\<open>"average"\<close>, \<^verbatim>\<open>"lower_quartile"\<close>, \<^verbatim>\<open>"upper_quartile"\<close> of one character.\<close>

record CharacterRange =
  average :: "real option"
  lower_quartile :: real
  upper_quartile :: real

text \<open>The body of the loop of \<^verbatim>\<open>calculateAverageAndRange\<close> for one character.\<close>

definition characterRange :: "real list \<Rightarrow> panic + CharacterRange" where
  "characterRange percentages =
     (let sorted = sort percentages;
          avg = calculateAverage sorted
      in case calculatePercentile sorted 5 of
           Inl e \<Rightarrow> Inl e
         | Inr lowerQuartile \<Rightarrow>
             (case calculatePercentile sorted 95 of
                Inl e \<Rightarrow> Inl e
              | Inr upperQuartile \<Rightarrow>
                  Inr \<lparr> average = avg, lower_quartile = lowerQuartile,
                        upper_quartile = upperQuartile \<rparr>))"

definition calculateAverageAndRange ::
  "(rune \<Rightarrow> real list) \<Rightarrow> (rune \<rightharpoonup> panic + CharacterRange)" where
  "calculateAverageAndRange globalCharDistributions =
     (\<lambda>char. if globalCharDistributions char = [] then None
             else Some (characterRange (globalCharDistributions char)))"

subsection \<open>The outlier detector of \<^verbatim>\<open>prefix_extractor.go\<close>\<close>

record CharacterStats =
  Average :: real
  MinRange :: real
  MaxRange :: real

definition isDistributionOutlier :: "rune \<Rightarrow> real \<Rightarrow> CharacterStats \<Rightarrow> bool" where
  "isDistributionOutlier char percentage stats = (percentage > MaxRange stats)"

text \<open>The value \<^verbatim>\<open>percentage := float64(count) / float64(totalFollowingCount)\<close>.\<close>

definition observedPercentage :: "int \<Rightarrow> int \<Rightarrow> real" where
  "observedPercentage cnt totalFollowingCount =
     real_of_int cnt / real_of_int totalFollowingCount"

text \<open>
  One round of the loop over \<^verbatim>\<open>followingCharCount\<close>; the state is \<^verbatim>\<open>outlierFound\<close> and
  \<^verbatim>\<open>outlierChars\<close>. An entry of \<^verbatim>\<open>outlierChars\<close> is the character with the number printed
  for it, \<^verbatim>\<open>percentage*100\<close>.
\<close>

definition outlierStep ::
  "(rune \<rightharpoonup> CharacterStats) \<Rightarrow> int \<Rightarrow> bool \<times> (rune \<times> real) list \<Rightarrow> rune \<times> int
     \<Rightarrow> bool \<times> (rune \<times> real) list" where
  "outlierStep GlobalCharStats totalFollowingCount state entry =
     (case state of (outlierFound, outlierChars) \<Rightarrow>
      (case entry of (char, cnt) \<Rightarrow>
        (case GlobalCharStats char of
           None \<Rightarrow> (outlierFound, outlierChars)
         | Some stats \<Rightarrow>
             (let percentage = observedPercentage cnt totalFollowingCount in
              if isDistributionOutlier char percentage stats then
                (if percentage > 0.005
                 then (True, outlierChars @ [(char, percentage * 100)])
                 else (outlierFound, outlierChars))
              else (outlierFound, outlierChars)))))"

record SuspiciousPrefix =
  reportPrefix :: "rune list"
  reportStandalone :: int
  reportTotalFollowing :: int
  reportOutliers :: "(rune \<times> real) list"

text \<open>The body of the loop over the qualifying prefixes: the block written for a prefix, if any.\<close>

definition scanPrefix ::
  "(rune \<rightharpoonup> CharacterStats) \<Rightarrow> Trie \<Rightarrow> rune list \<Rightarrow> SuspiciousPrefix option" where
  "scanPrefix GlobalCharStats passTrie p =
     (let followingCharCount = collectFollowingChars passTrie p;
          totalFollowingCount = totalFollowing followingCharCount;
          (outlierFound, outlierChars) =
             foldl (outlierStep GlobalCharStats totalFollowingCount) (False, []) followingCharCount
      in if outlierFound
         then Some \<lparr> reportPrefix = p,
                     reportStandalone = CountStandaloneOccurrences passTrie p,
                     reportTotalFollowing = totalFollowingCount,
                     reportOutliers = outlierChars \<rparr>
         else None)"

text \<open>
  The outlier condition in the words of the specification: the observed percentage
  strictly exceeds the character's baseline upper bound and strictly exceeds the floor
  of 0.5 per cent. A character without a baseline entry has no upper bound to exceed.
\<close>

definition outlierCondition :: "(rune \<rightharpoonup> CharacterStats) \<Rightarrow> int \<Rightarrow> rune \<times> int \<Rightarrow> bool" where
  "outlierCondition baseline tot entry =
     (case entry of (char, cnt) \<Rightarrow>
        (case baseline char of
           None \<Rightarrow> False
         | Some stats \<Rightarrow>
             observedPercentage cnt tot > MaxRange stats \<and>
             observedPercentage cnt tot > 5 / 1000))"

subsection \<open>The ratio classifier of \<^verbatim>\<open>for_identify_passwords.go\<close>\<close>

definition calcCurve :: "real \<Rightarrow> real \<Rightarrow> bool" where
  "calcCurve standalone followup =
     (if standalone \<ge> 3000 \<and> standalone \<le> 5000 then followup < 1
      else if standalone > 5000 \<and> standalone \<le> 20000 then followup < (standalone / 500) - 10
      else if standalone > 20000 then followup < (standalone / 120) - 135
      else False)"

record PrefixRecord =
  Prefix :: "rune list"
  StandaloneCount :: real
  FollowingCount :: real

text \<open>
  The pure part of \<^verbatim>\<open>identifySuspiciousPasswords\<close>: the keys of the map
  \<^verbatim>\<open>suspiciousPasswords\<close>, from the decoded records.
\<close>

definition identifySuspiciousPasswords :: "PrefixRecord list \<Rightarrow> rune list set" where
  "identifySuspiciousPasswords prefixRecords =
     set (map Prefix
       (filter (\<lambda>record. calcCurve (StandaloneCount record) (FollowingCount record))
          prefixRecords))"

text \<open>
  The required minimum of following occurrences in the words of the specification's table;
  \<open>None\<close> where the table says that a prefix is never flagged.
\<close>

definition requiredMinimum :: "real \<Rightarrow> real option" where
  "requiredMinimum standaloneCount =
     (if standaloneCount < 3000 then None
      else if standaloneCount \<le> 5000 then Some 1
      else if standaloneCount \<le> 20000 then Some (standaloneCount / 500 - 10)
      else Some (standaloneCount / 120 - 135))"

subsection \<open>Loading a corpus file: \<^verbatim>\<open>LoadCredentialsFromFile\<close>\<close>

text \<open>
  \<^verbatim>\<open>strings.Split(line, ":")\<close>: the pieces of the line between the separators, one more than
  there are separators.
\<close>

fun Split :: "rune list \<Rightarrow> rune \<Rightarrow> rune list list" where
  "Split [] sep = [[]]"
| "Split (c # cs) sep =
     (if c = sep then [] # Split cs sep
      else (let pieces = Split cs sep in (c # hd pieces) # tl pieces))"

text \<open>\<^verbatim>\<open>unicode.IsSpace\<close>: the code points with the Unicode property White-Space.\<close>

definition IsSpace :: "rune \<Rightarrow> bool" where
  "IsSpace r =
     ((0x09 \<le> r \<and> r \<le> 0x0D) \<or> r = 0x20 \<or> r = 0x85 \<or> r = 0xA0 \<or> r = 0x1680 \<or>
      (0x2000 \<le> r \<and> r \<le> 0x200A) \<or> r = 0x2028 \<or> r = 0x2029 \<or> r = 0x202F \<or>
      r = 0x205F \<or> r = 0x3000)"

definition TrimSpace :: "rune list \<Rightarrow> rune list" where
  "TrimSpace s = rev (dropWhile IsSpace (rev (dropWhile IsSpace s)))"

definition colon :: rune where
  "colon = 0x3A"

text \<open>The body of the scanner loop for one line.\<close>

definition processLine :: "Trie \<Rightarrow> rune list \<Rightarrow> Trie" where
  "processLine passTrie line =
     (let splitLine = Split line colon
      in if length splitLine < 2 then passTrie
         else (let password = TrimSpace (splitLine ! 1)
               in if password \<noteq> [] then Insert passTrie password else passTrie))"

text \<open>
  What opening and scanning a file gives: it cannot be opened, or the scanner yields some
  lines and then stops, at the end of the file or at a read error.
\<close>

datatype FileContent = OpenError | Scanned "rune list list" bool

datatype Diagnostic = ErrorAccessing string | ErrorOpening string | ErrorReading string

definition LoadCredentialsFromFile ::
  "string \<Rightarrow> FileContent \<Rightarrow> Trie \<Rightarrow> Trie \<times> Diagnostic list" where
  "LoadCredentialsFromFile filePath content passTrie =
     (case content of
        OpenError \<Rightarrow> (passTrie, [ErrorOpening filePath])
      | Scanned scannedLines readError \<Rightarrow>
          (foldl processLine passTrie scannedLines,
           if readError then [ErrorReading filePath] else []))"

text \<open>
  The text after the first separator, and the text between the first separator and the
  next one, of a line that has a separator.
\<close>

definition afterFirst :: "rune \<Rightarrow> rune list \<Rightarrow> rune list" where
  "afterFirst sep line = tl (dropWhile (\<lambda>c. c \<noteq> sep) line)"

definition secondField :: "rune \<Rightarrow> rune list \<Rightarrow> rune list" where
  "secondField sep line = takeWhile (\<lambda>c. c \<noteq> sep) (afterFirst sep line)"

subsection \<open>Directory walks of the three run modes\<close>

text \<open>
  \<^verbatim>\<open>filepath.Walk\<close> calls the function it is given once for every path it reaches, with an
  error when it could not access that path, and stops as soon as a call returns an error,
  which it then returns. A walk is the list of these calls: \<open>AccessError path\<close> is a call with
  \<^verbatim>\<open>err != nil\<close>, \<open>Visited path name content\<close> a call without, \<open>name\<close> being
  \<^verbatim>\<open>info.Name()\<close> and \<open>content\<close> what opening and scanning the path gives.
\<close>

datatype WalkEntry = AccessError string | Visited string string FileContent

datatype error = AccessFailure string

fun Walk :: "('s \<Rightarrow> WalkEntry \<Rightarrow> error + 's) \<Rightarrow> 's \<Rightarrow> WalkEntry list \<Rightarrow> error + 's" where
  "Walk fn s [] = Inr s"
| "Walk fn s (e # es) =
     (case fn s e of
        Inl err \<Rightarrow> Inl err
      | Inr s' \<Rightarrow> Walk fn s' es)"

definition passwordsSuffix :: string where
  "passwordsSuffix = ''_passwords.txt''"

text \<open>Baseline build: the function passed to the walk in \<^verbatim>\<open>ScanForCharacterDistributions\<close>.\<close>

definition distributionsWalkFn ::
  "int \<Rightarrow> (rune \<Rightarrow> real list) \<times> Diagnostic list \<Rightarrow> WalkEntry
     \<Rightarrow> error + ((rune \<Rightarrow> real list) \<times> Diagnostic list)" where
  "distributionsWalkFn occurrenceThreshold state entry =
     (case state of (globalCharDistributions, logged) \<Rightarrow>
      (case entry of
        AccessError path \<Rightarrow> Inr (globalCharDistributions, logged @ [ErrorAccessing path])
      | Visited path name content \<Rightarrow>
          if suffix passwordsSuffix name then
            (let (passTrie, diagnostics) = LoadCredentialsFromFile path content NewTrie;
                 highStandalone = collectHighStandalone passTrie occurrenceThreshold
             in Inr (foldl (aggregatePrefix passTrie) globalCharDistributions highStandalone,
                     logged @ diagnostics))
          else Inr (globalCharDistributions, logged)))"

text \<open>
  \<^verbatim>\<open>ScanForCharacterDistributions\<close> up to the statistics it hands to the writer; \<open>Inl\<close> is the
  \<^verbatim>\<open>log.Fatalf\<close> after the walk.
\<close>

definition ScanForCharacterDistributions ::
  "WalkEntry list \<Rightarrow> int
     \<Rightarrow> error + ((rune \<rightharpoonup> panic + CharacterRange) \<times> Diagnostic list)" where
  "ScanForCharacterDistributions srcDir occurrenceThreshold =
     (case Walk (distributionsWalkFn occurrenceThreshold) (\<lambda>char. [], []) srcDir of
        Inl err \<Rightarrow> Inl err
      | Inr (globalCharDistributions, logged) \<Rightarrow>
          Inr (calculateAverageAndRange globalCharDistributions, logged))"

text \<open>Outlier detection: what is written for one file is its name and its blocks.\<close>

record FileReport =
  reportFile :: string
  reportBlocks :: "SuspiciousPrefix list"

definition suspiciousWalkFn ::
  "(rune \<rightharpoonup> CharacterStats) \<Rightarrow> int \<Rightarrow> FileReport list \<times> Diagnostic list \<Rightarrow> WalkEntry
     \<Rightarrow> error + (FileReport list \<times> Diagnostic list)" where
  "suspiciousWalkFn GlobalCharStats occurrenceThreshold state entry =
     (case state of (written, logged) \<Rightarrow>
      (case entry of
        AccessError path \<Rightarrow> Inr (written, logged @ [ErrorAccessing path])
      | Visited path name content \<Rightarrow>
          if suffix passwordsSuffix name then
            (let (passTrie, diagnostics) = LoadCredentialsFromFile path content NewTrie;
                 highStandalone = collectHighStandalone passTrie occurrenceThreshold
             in Inr (written @
                       [\<lparr> reportFile = name,
                          reportBlocks =
                            List.map_filter (scanPrefix GlobalCharStats passTrie) highStandalone \<rparr>],
                     logged @ diagnostics))
          else Inr (written, logged)))"

definition ScanForSuspiciousPrefixes ::
  "(rune \<rightharpoonup> CharacterStats) \<Rightarrow> WalkEntry list \<Rightarrow> int
     \<Rightarrow> error + (FileReport list \<times> Diagnostic list)" where
  "ScanForSuspiciousPrefixes GlobalCharStats srcDir occurrenceThreshold =
     Walk (suspiciousWalkFn GlobalCharStats occurrenceThreshold) ([], []) srcDir"

text \<open>Ratio statistics of \<^verbatim>\<open>standalone_to_ratio_stats.go\<close>.\<close>

record PrefixStats =
  statsPrefix :: "rune list"
  statsStandaloneCount :: int
  statsFollowingCount :: int

fun collectPrefixStats ::
  "TrieNode \<Rightarrow> rune list \<Rightarrow> int \<Rightarrow> PrefixStats list \<Rightarrow> PrefixStats list" where
  "collectPrefixStats (TrieNode kids cnt) currentPrefix threshold stats =
     foldl (\<lambda>st (char, child). collectPrefixStats child (currentPrefix @ [char]) threshold st)
       (if cnt > threshold
        then stats @
               [\<lparr> statsPrefix = currentPrefix,
                  statsStandaloneCount = cnt,
                  statsFollowingCount =
                    foldl (\<lambda>totalFollowing child. totalFollowing + countWordsInSubTrie child) 0
                      (map snd kids) \<rparr>]
        else stats)
       kids"

definition TrimSuffix :: "string \<Rightarrow> string \<Rightarrow> string" where
  "TrimSuffix s suf = (if suffix suf s then take (length s - length suf) s else s)"

definition statisticsWalkFn ::
  "int \<Rightarrow> (string \<rightharpoonup> PrefixStats list) \<times> Diagnostic list \<Rightarrow> WalkEntry
     \<Rightarrow> error + ((string \<rightharpoonup> PrefixStats list) \<times> Diagnostic list)" where
  "statisticsWalkFn occurrenceThreshold state entry =
     (case state of (allStats, logged) \<Rightarrow>
      (case entry of
        AccessError path \<Rightarrow> Inl (AccessFailure path)
      | Visited path name content \<Rightarrow>
          if suffix passwordsSuffix name then
            (let (passTrie, diagnostics) = LoadCredentialsFromFile path content NewTrie;
                 stats = collectPrefixStats (root passTrie) [] occurrenceThreshold [];
                 baseName = TrimSuffix name passwordsSuffix
             in Inr (allStats(baseName \<mapsto> stats), logged @ diagnostics))
          else Inr (allStats, logged)))"

text \<open>\<^verbatim>\<open>GeneratePrefixStatistics\<close> up to the map it encodes; \<open>Inl\<close> is the error it returns.\<close>

definition GeneratePrefixStatistics ::
  "WalkEntry list \<Rightarrow> int \<Rightarrow> error + ((string \<rightharpoonup> PrefixStats list) \<times> Diagnostic list)" where
  "GeneratePrefixStatistics srcDir occurrenceThreshold =
     Walk (statisticsWalkFn occurrenceThreshold) (Map.empty, []) srcDir"

text \<open>The samples that one call of the walk function adds for a character.\<close>

definition entrySamples :: "int \<Rightarrow> WalkEntry \<Rightarrow> rune \<Rightarrow> real list" where
  "entrySamples occurrenceThreshold entry char =
     (case distributionsWalkFn occurrenceThreshold (\<lambda>char. [], []) entry of
        Inl err \<Rightarrow> []
      | Inr (globalCharDistributions, logged) \<Rightarrow> globalCharDistributions char)"

text \<open>A walk entry whose path could not be accessed, or whose file could not be opened.\<close>

fun unreadable :: "WalkEntry \<Rightarrow> bool" where
  "unreadable (AccessError path) = True"
| "unreadable (Visited path name OpenError) = True"
| "unreadable (Visited path name (Scanned scannedLines readError)) = False"

fun isAccessError :: "WalkEntry \<Rightarrow> bool" where
  "isAccessError (AccessError path) = True"
| "isAccessError (Visited path name content) = False"

section \<open>Properties\<close>

subsection \<open>Trie counts\<close>

lemma foldl_add_sum:
  "foldl (\<lambda>count child. count + f child) (a::int) xs = a + sum_list (map f xs)"
  by (induction xs arbitrary: a) simp_all

lemma countWords_sum:
  "countWordsInSubTrie (TrieNode kids cnt) =
     cnt + sum_list (map (countWordsInSubTrie \<circ> snd) kids)"
  by (simp add: foldl_add_sum)

lemma countWords_node:
  "countWordsInSubTrie node =
     endOfWordCount node + sum_list (map (countWordsInSubTrie \<circ> snd) (children node))"
  by (cases node) (simp add: foldl_add_sum)

lemma map_of_setChild: "map_of (setChild c n kids) = (map_of kids)(c \<mapsto> n)"
  by (induction kids) (auto simp: fun_eq_iff)

lemma sum_setChild:
  "sum_list (map (f \<circ> snd) (setChild c n kids)) =
     sum_list (map (f \<circ> snd) kids) - (case map_of kids c of None \<Rightarrow> 0 | Some m \<Rightarrow> f m)
       + (f n :: int)"
  by (induction kids) (auto split: option.splits)

lemma countWords_newNode: "countWordsInSubTrie newNode = 0"
  by (simp add: newNode_def)

text \<open>One insertion raises the subtree total of the node it starts from by one.\<close>

lemma countWords_insertFrom:
  "countWordsInSubTrie (insertFrom node w) = countWordsInSubTrie node + 1"
proof (induction w arbitrary: node)
  case Nil
  show ?case by (cases node) (simp add: foldl_add_sum)
next
  case (Cons c w)
  show ?case
  proof (cases "map_of (children node) c")
    case None
    then show ?thesis
      using Cons.IH [of newNode]
      by (simp del: countWordsInSubTrie.simps
            add: countWords_sum sum_setChild countWords_newNode countWords_node [of node])
  next
    case (Some child)
    then show ?thesis
      using Cons.IH [of child]
      by (simp del: countWordsInSubTrie.simps
            add: countWords_sum sum_setChild countWords_node [of node])
  qed
qed

lemma countPrefixFrom_newNode: "countPrefixFrom newNode p = 0"
  by (cases p) (simp_all add: newNode_def)

lemma countPrefixFrom_insertFrom:
  "countPrefixFrom (insertFrom node w) p =
     countPrefixFrom node p + (if prefix p w then 1 else 0)"
proof (induction p arbitrary: node w)
  case Nil
  show ?case by (simp add: countWords_insertFrom)
next
  case (Cons c p)
  show ?case
  proof (cases w)
    case Nil
    then show ?thesis by simp
  next
    case (Cons d w')
    show ?thesis
    proof (cases "map_of (children node) d")
      case None
      then show ?thesis
        using Cons.IH [of newNode w'] \<open>w = d # w'\<close>
        by (simp add: map_of_setChild countPrefixFrom_newNode)
    next
      case (Some child)
      then show ?thesis
        using Cons.IH [of child w'] \<open>w = d # w'\<close>
        by (simp add: map_of_setChild)
    qed
  qed
qed

lemma countPrefix_foldl:
  "CountWordsWithPrefix (foldl Insert t ws) p =
     CountWordsWithPrefix t p + int (length (filter (prefix p) ws))"
  by (induction ws arbitrary: t)
     (simp_all add: CountWordsWithPrefix_def Insert_def countPrefixFrom_insertFrom)

lemma countPrefixFrom_absent: "nodeAt node p = None \<Longrightarrow> countPrefixFrom node p = 0"
  by (induction p arbitrary: node) (auto split: option.splits)

text \<open>
  Claim C1. For a trie built from the empty trie by inserting the words \<open>ws\<close>, and any
  prefix \<open>p\<close>, \<^verbatim>\<open>CountWordsWithPrefix\<close> returns the number of inserted words (counted with
  repetition) that have \<open>p\<close> as a prefix, words equal to \<open>p\<close> included; and in any trie in
  which the path for \<open>p\<close> does not exist it returns 0.
\<close>

theorem CountWordsWithPrefix_correct:
  "CountWordsWithPrefix (buildTrie ws) p = int (length (filter (prefix p) ws)) \<and>
   (nodeAt (root t) p = None \<longrightarrow> CountWordsWithPrefix t p = 0)"
  using countPrefix_foldl [of NewTrie ws p] countPrefixFrom_absent [of "root t" p]
  by (simp add: buildTrie_def CountWordsWithPrefix_def NewTrie_def countPrefixFrom_newNode)

theorem CountWordsWithPrefix_correct_witness:
  "nodeAt (root (buildTrie [[1, 2], [1]])) [2] = None \<and>
   CountWordsWithPrefix (buildTrie [[1, 2], [1]]) [2] = 0 \<and>
   CountWordsWithPrefix (buildTrie [[1, 2], [1], [3], [1, 2, 4]]) [1, 2] = 2"
  using CountWordsWithPrefix_correct
          [of "[[1, 2], [1], [3], [1, 2, 4]]" "[1, 2]" "buildTrie [[1, 2], [1]]"]
        CountWordsWithPrefix_correct [of "[[1, 2], [1]]" "[2]" "buildTrie [[1, 2], [1]]"]
  by (simp add: buildTrie_def Insert_def NewTrie_def newNode_def)

lemma standaloneFrom_newNode: "standaloneFrom newNode p = 0"
  by (cases p) (simp_all add: newNode_def)

lemma standaloneFrom_insertFrom:
  "standaloneFrom (insertFrom node w) p = standaloneFrom node p + (if p = w then 1 else 0)"
proof (induction p arbitrary: node w)
  case Nil
  show ?case by (cases w) (simp_all split: option.splits)
next
  case (Cons c p)
  show ?case
  proof (cases w)
    case Nil
    then show ?thesis by simp
  next
    case (Cons d w')
    show ?thesis
    proof (cases "map_of (children node) d")
      case None
      then show ?thesis
        using Cons.IH [of newNode w'] \<open>w = d # w'\<close>
        by (auto simp add: map_of_setChild standaloneFrom_newNode)
    next
      case (Some child)
      then show ?thesis
        using Cons.IH [of child w'] \<open>w = d # w'\<close>
        by (auto simp add: map_of_setChild)
    qed
  qed
qed

lemma standalone_foldl:
  "CountStandaloneOccurrences (foldl Insert t ws) w =
     CountStandaloneOccurrences t w + int (count_list ws w)"
  by (induction ws arbitrary: t)
     (auto simp add: CountStandaloneOccurrences_def Insert_def standaloneFrom_insertFrom)

lemma standaloneFrom_absent: "nodeAt node p = None \<Longrightarrow> standaloneFrom node p = 0"
  by (induction p arbitrary: node) (auto split: option.splits)

text \<open>
  Claim C2. For a trie built from the empty trie by inserting the words \<open>ws\<close>, and any
  word \<open>w\<close>, \<^verbatim>\<open>CountStandaloneOccurrences\<close> returns the number of times \<open>w\<close> occurs in
  \<open>ws\<close>; in particular it is 0 for a word that was never inserted, and it is 0 in any trie in
  which the path for \<open>w\<close> does not exist.
\<close>

theorem CountStandaloneOccurrences_correct:
  "CountStandaloneOccurrences (buildTrie ws) w = int (count_list ws w) \<and>
   (w \<notin> set ws \<longrightarrow> CountStandaloneOccurrences (buildTrie ws) w = 0) \<and>
   (nodeAt (root t) w = None \<longrightarrow> CountStandaloneOccurrences t w = 0)"
  using standalone_foldl [of NewTrie ws w] standaloneFrom_absent [of "root t" w]
  by (simp add: buildTrie_def CountStandaloneOccurrences_def NewTrie_def standaloneFrom_newNode)

theorem CountStandaloneOccurrences_correct_witness:
  "[1::rune] \<notin> set [[1, 2], [3], [1, 2]] \<and>
   CountStandaloneOccurrences (buildTrie [[1, 2], [3], [1, 2]]) [1] = 0 \<and>
   nodeAt (root (buildTrie [[1, 2], [3], [1, 2]])) [4] = None \<and>
   CountStandaloneOccurrences (buildTrie [[1, 2], [3], [1, 2]]) [4] = 0 \<and>
   CountStandaloneOccurrences (buildTrie [[1, 2], [3], [1, 2]]) [1, 2] = 2"
  using CountStandaloneOccurrences_correct
          [of "[[1, 2], [3], [1, 2]]" "[1]" "buildTrie [[1, 2], [3], [1, 2]]"]
        CountStandaloneOccurrences_correct
          [of "[[1, 2], [3], [1, 2]]" "[4]" "buildTrie [[1, 2], [3], [1, 2]]"]
        CountStandaloneOccurrences_correct
          [of "[[1, 2], [3], [1, 2]]" "[1, 2]" "buildTrie [[1, 2], [3], [1, 2]]"]
  by (simp add: buildTrie_def Insert_def NewTrie_def newNode_def)

subsection \<open>Invariants of a built trie\<close>

text \<open>
  Every child node has a subtree total of at least one, and end-of-word counts are not
  negative.
\<close>

lemma in_setChild:
  "(k, m) \<in> set (setChild c n kids) \<Longrightarrow> (k, m) = (c, n) \<or> (k, m) \<in> set kids"
  by (induction kids) (auto split: if_splits)

lemma keys_setChild:
  "map fst (setChild c n kids) =
     (if c \<in> set (map fst kids) then map fst kids else map fst kids @ [c])"
  by (induction kids) force+

lemma positiveNode_iff:
  "positiveNode node \<longleftrightarrow> 0 \<le> endOfWordCount node \<and>
     (\<forall>k child. (k, child) \<in> set (children node) \<longrightarrow>
         1 \<le> countWordsInSubTrie child \<and> positiveNode child)"
  by (cases node) (force simp add: list_all_iff)

lemma positiveNode_countWords: "positiveNode node \<Longrightarrow> 0 \<le> countWordsInSubTrie node"
proof -
  assume p: "positiveNode node"
  have "0 \<le> sum_list (map (countWordsInSubTrie \<circ> snd) (children node))"
    using p by (intro sum_list_nonneg) (force simp: positiveNode_iff [of node])
  then show ?thesis using p by (simp add: countWords_node [of node] positiveNode_iff [of node])
qed

lemma positiveNode_newNode: "positiveNode newNode"
  by (simp add: newNode_def)

lemma insertFrom_Cons:
  "insertFrom node (c # w) =
     TrieNode
       (setChild c
          (insertFrom (case map_of (children node) c of None \<Rightarrow> newNode | Some ch \<Rightarrow> ch) w)
          (children node))
       (endOfWordCount node)"
  by (simp split: option.splits)

lemma positiveNode_insertFrom:
  "positiveNode node \<Longrightarrow> positiveNode (insertFrom node w)"
proof (induction w arbitrary: node)
  case Nil
  then show ?case by (cases node) simp
next
  case (Cons c w)
  define child where "child = (case map_of (children node) c of None \<Rightarrow> newNode | Some ch \<Rightarrow> ch)"
  have pc: "positiveNode child"
    using Cons.prems map_of_SomeD [of "children node" c]
    by (auto simp: child_def positiveNode_newNode positiveNode_iff [of node] split: option.splits)
  have p1: "positiveNode (insertFrom child w)" using Cons.IH [OF pc] .
  have p2: "1 \<le> countWordsInSubTrie (insertFrom child w)"
    using positiveNode_countWords [OF pc] by (simp add: countWords_insertFrom)
  have "1 \<le> countWordsInSubTrie m \<and> positiveNode m"
    if "(k, m) \<in> set (setChild c (insertFrom child w) (children node))" for k m
    using in_setChild [OF that] p1 p2 Cons.prems by (auto simp: positiveNode_iff [of node])
  moreover have "0 \<le> endOfWordCount node"
    using Cons.prems by (simp add: positiveNode_iff [of node])
  ultimately show ?case
    unfolding insertFrom_Cons child_def [symmetric] positiveNode_iff [of "TrieNode _ _"] by auto
qed

lemma positiveNode_buildTrie: "positiveNode (root (buildTrie ws))"
proof -
  have "positiveNode (root t) \<Longrightarrow> positiveNode (root (foldl Insert t ws))" for t
    by (induction ws arbitrary: t) (simp_all add: Insert_def positiveNode_insertFrom)
  then show ?thesis by (simp add: buildTrie_def NewTrie_def positiveNode_newNode)
qed

text \<open>The keys of every children map are distinct, as the keys of a Go map are.\<close>

lemma distinctKeys_iff:
  "distinctKeys node \<longleftrightarrow> distinct (map fst (children node)) \<and>
     (\<forall>k child. (k, child) \<in> set (children node) \<longrightarrow> distinctKeys child)"
  by (cases node) (force simp add: list_all_iff)

lemma distinctKeys_newNode: "distinctKeys newNode"
  by (simp add: newNode_def)

lemma distinctKeys_insertFrom: "distinctKeys node \<Longrightarrow> distinctKeys (insertFrom node w)"
proof (induction w arbitrary: node)
  case Nil
  then show ?case by (cases node) simp
next
  case (Cons c w)
  define child where "child = (case map_of (children node) c of None \<Rightarrow> newNode | Some ch \<Rightarrow> ch)"
  have dc: "distinctKeys child"
    using Cons.prems map_of_SomeD [of "children node" c]
    by (auto simp: child_def distinctKeys_newNode distinctKeys_iff [of node] split: option.splits)
  have "distinctKeys m"
    if "(k, m) \<in> set (setChild c (insertFrom child w) (children node))" for k m
    using in_setChild [OF that] Cons.IH [OF dc] Cons.prems by (auto simp: distinctKeys_iff [of node])
  moreover have "distinct (map fst (setChild c (insertFrom child w) (children node)))"
    using Cons.prems by (simp add: distinctKeys_iff [of node] keys_setChild)
  ultimately show ?case
    unfolding insertFrom_Cons child_def [symmetric] distinctKeys_iff [of "TrieNode _ _"] by auto
qed

lemma distinctKeys_buildTrie: "distinctKeys (root (buildTrie ws))"
proof -
  have "distinctKeys (root t) \<Longrightarrow> distinctKeys (root (foldl Insert t ws))" for t
    by (induction ws arbitrary: t) (simp_all add: Insert_def distinctKeys_insertFrom)
  then show ?thesis by (simp add: buildTrie_def NewTrie_def distinctKeys_newNode)
qed

subsection \<open>Following characters\<close>

lemma followingFrom_positive:
  "positiveNode node \<Longrightarrow> (char, k) \<in> set (followingFrom node p) \<Longrightarrow> 1 \<le> k"
proof (induction p arbitrary: node)
  case Nil
  then show ?case by (auto simp: positiveNode_iff [of node])
next
  case (Cons c p)
  show ?case
  proof (cases "map_of (children node) c")
    case None
    then show ?thesis using Cons.prems by simp
  next
    case (Some child)
    then have "positiveNode child"
      using Cons.prems(1) map_of_SomeD [of "children node" c child]
      by (auto simp add: positiveNode_iff [of node])
    then show ?thesis using Cons.IH [of child] Cons.prems(2) Some by simp
  qed
qed

lemma followingFrom_distinct:
  "distinctKeys node \<Longrightarrow> distinct (map fst (followingFrom node p))"
proof (induction p arbitrary: node)
  case Nil
  have "map fst (followingFrom node []) = map fst (children node)"
    by (simp add: case_prod_unfold comp_def)
  then show ?case using Nil by (simp only: distinctKeys_iff [of node])
next
  case (Cons c p)
  show ?case
  proof (cases "map_of (children node) c")
    case None
    then show ?thesis by simp
  next
    case (Some child)
    then have "distinctKeys child"
      using Cons.prems map_of_SomeD [of "children node" c child]
      by (auto simp add: distinctKeys_iff [of node])
    then show ?thesis using Cons.IH [of child] Some by simp
  qed
qed

lemma totalFollowing_sum: "totalFollowing xs = sum_list (map snd xs)"
proof -
  have "foldl (\<lambda>t (c, n). t + n) (a::int) xs = a + sum_list (map snd xs)" for a
    by (induction xs arbitrary: a) auto
  then show ?thesis by (simp add: totalFollowing_def)
qed

lemma totalFollowing_positive:
  assumes "\<And>char k. (char, k) \<in> set xs \<Longrightarrow> 1 \<le> k" and "xs \<noteq> []"
  shows "1 \<le> totalFollowing xs"
  using assms unfolding totalFollowing_sum
proof (induction xs)
  case Nil
  then show ?case by simp
next
  case (Cons x xs)
  have "1 \<le> snd x" using Cons.prems(1) [of "fst x" "snd x"] by simp
  moreover have "0 \<le> sum_list (map snd xs)"
    using Cons.prems(1) by (intro sum_list_nonneg) force
  ultimately show ?case by simp
qed

lemma following_entries_positive:
  "(char, k) \<in> set (collectFollowingChars (buildTrie ws) p) \<Longrightarrow> 1 \<le> k"
  using followingFrom_positive [OF positiveNode_buildTrie]
  by (simp add: collectFollowingChars_def)

lemma following_total:
  "collectFollowingChars (buildTrie ws) p \<noteq> [] \<Longrightarrow>
     1 \<le> totalFollowing (collectFollowingChars (buildTrie ws) p)"
  using totalFollowing_positive [of "collectFollowingChars (buildTrie ws) p"]
    following_entries_positive [of _ _ ws p]
  by blast

text \<open>
  Claim C10. In a trie built from the empty trie by \<^verbatim>\<open>Insert\<close> calls, every count in the
  map that \<^verbatim>\<open>collectFollowingChars\<close> returns for a prefix is at least 1, and if the map is
  not empty the sum of its counts, the divisor \<^verbatim>\<open>totalFollowingCount\<close> of the outlier
  detector, is at least 1: the division never divides by zero.
\<close>

theorem following_total_positive:
  "(\<forall>(char, k) \<in> set (collectFollowingChars (buildTrie ws) p). 1 \<le> k) \<and>
   (collectFollowingChars (buildTrie ws) p \<noteq> [] \<longrightarrow>
      1 \<le> totalFollowing (collectFollowingChars (buildTrie ws) p))"
  using following_entries_positive [of _ _ ws p] following_total [of ws p]
  by blast

theorem following_total_positive_witness:
  "collectFollowingChars (buildTrie [[1], [1, 2], [1, 3], [1, 2, 4]]) [1] = [(2, 2), (3, 1)] \<and>
   collectFollowingChars (buildTrie [[1], [1, 2], [1, 3], [1, 2, 4]]) [1] \<noteq> [] \<and>
   1 \<le> totalFollowing (collectFollowingChars (buildTrie [[1], [1, 2], [1, 3], [1, 2, 4]]) [1])"
proof -
  have v: "collectFollowingChars (buildTrie [[1], [1, 2], [1, 3], [1, 2, 4]]) [1] = [(2, 2), (3, 1)]"
    by (simp add: collectFollowingChars_def buildTrie_def Insert_def NewTrie_def newNode_def)
  then have ne: "collectFollowingChars (buildTrie [[1], [1, 2], [1, 3], [1, 2, 4]]) [1] \<noteq> []"
    by simp
  show ?thesis
    using v ne following_total_positive [of "[[1], [1, 2], [1, 3], [1, 2, 4]]" "[1]"]
    by blast
qed

subsection \<open>Outlier detector\<close>

lemma outlierStep_cases:
  "outlierStep G tot (found, chars) (c, k) =
     (if outlierCondition G tot (c, k)
      then (True, chars @ [(c, observedPercentage k tot * 100)])
      else (found, chars))"
  by (simp add: outlierStep_def outlierCondition_def isDistributionOutlier_def Let_def
           split: option.splits)

lemma outlier_foldl:
  "foldl (outlierStep G tot) (found, chars) xs =
     (found \<or> (\<exists>e \<in> set xs. outlierCondition G tot e),
      chars @ map (\<lambda>(c, k). (c, observedPercentage k tot * 100))
                  (filter (outlierCondition G tot) xs))"
proof (induction xs arbitrary: found chars)
  case Nil
  show ?case by simp
next
  case (Cons x xs)
  obtain c k where x: "x = (c, k)" by (cases x)
  show ?case
    unfolding x foldl_Cons outlierStep_cases
    by (simp add: Cons.IH)
qed

subsection \<open>Aggregated samples\<close>

lemma aggregate_Nil: "aggregateCharacterDistributions [] tot g = g"
  by (simp add: aggregateCharacterDistributions_def)

lemma aggregate_Cons:
  "aggregateCharacterDistributions ((d, j) # xs) tot g =
     aggregateCharacterDistributions xs tot
       (g(d := g d @ [real_of_int j / real_of_int tot * 100]))"
  by (simp add: aggregateCharacterDistributions_def Let_def)

text \<open>The samples that one call appends for a character.\<close>

lemma aggregate_appends:
  "aggregateCharacterDistributions xs tot g c =
     g c @ map (\<lambda>(d, j). real_of_int j / real_of_int tot * 100) (filter (\<lambda>(d, j). d = c) xs)"
proof (induction xs arbitrary: g)
  case Nil
  show ?case by (simp add: aggregate_Nil)
next
  case (Cons x xs)
  obtain d j where x: "x = (d, j)" by (cases x)
  show ?case unfolding x aggregate_Cons Cons.IH by simp
qed

lemma filter_key_distinct:
  "distinct (map fst xs) \<Longrightarrow> (c, k) \<in> set xs \<Longrightarrow> filter (\<lambda>(d, j). d = c) xs = [(c, k)]"
proof (induction xs)
  case Nil
  then show ?case by simp
next
  case (Cons x xs)
  obtain d j where x: "x = (d, j)" by (cases x)
  show ?case
  proof (cases "(c, k) \<in> set xs")
    case True
    then have "d \<noteq> c" using Cons.prems(1) x by force
    then show ?thesis using Cons.IH True Cons.prems(1) x by simp
  next
    case False
    then have eq: "d = c" "j = k" using Cons.prems(2) x by auto
    have "c \<notin> fst ` set xs" using Cons.prems(1) x eq by simp
    then have "filter (\<lambda>(d, j). d = c) xs = []"
      by (force simp: filter_empty_conv)
    then show ?thesis using x eq by simp
  qed
qed

lemma following_distinct: "distinct (map fst (collectFollowingChars (buildTrie ws) p))"
  using followingFrom_distinct [OF distinctKeys_buildTrie]
  by (simp add: collectFollowingChars_def)

text \<open>
  Claim C4, as amended. For a trie built by \<^verbatim>\<open>Insert\<close> calls, a prefix and a following
  character with its count: the sample that the distribution aggregator appends for the
  character is \<open>count / totalFollowing \<times> 100\<close>, and it is 100 times the value
  \<open>count / totalFollowing\<close> that the outlier detector compares with the baseline upper bound.
\<close>

theorem aggregated_sample_is_100_times_observed:
  assumes "(c, k) \<in> set (collectFollowingChars (buildTrie ws) p)"
  shows "aggregatePrefix (buildTrie ws) g p c =
           g c @ [100 * observedPercentage k
                          (totalFollowing (collectFollowingChars (buildTrie ws) p))] \<and>
         outlierStep G (totalFollowing (collectFollowingChars (buildTrie ws) p)) (found, chars) (c, k) =
           (if (\<exists>stats. G c = Some stats \<and>
                  observedPercentage k (totalFollowing (collectFollowingChars (buildTrie ws) p))
                     > MaxRange stats \<and>
                  observedPercentage k (totalFollowing (collectFollowingChars (buildTrie ws) p))
                     > 0.005)
            then (True, chars @ [(c, observedPercentage k
                       (totalFollowing (collectFollowingChars (buildTrie ws) p)) * 100)])
            else (found, chars)) \<and>
         observedPercentage k (totalFollowing (collectFollowingChars (buildTrie ws) p)) =
           real_of_int k / real_of_int (totalFollowing (collectFollowingChars (buildTrie ws) p))"
proof -
  let ?f = "collectFollowingChars (buildTrie ws) p"
  have ne: "?f \<noteq> []" using assms by auto
  have pos: "0 < totalFollowing ?f"
    using following_total [OF ne] by simp
  have "aggregatePrefix (buildTrie ws) g p c =
          g c @ [100 * observedPercentage k (totalFollowing ?f)]"
    using pos filter_key_distinct [OF following_distinct assms]
    by (simp add: aggregatePrefix_def Let_def observedPercentage_def aggregate_appends)
  moreover have "outlierCondition G (totalFollowing ?f) (c, k) \<longleftrightarrow>
     (\<exists>stats. G c = Some stats \<and> observedPercentage k (totalFollowing ?f) > MaxRange stats \<and>
        observedPercentage k (totalFollowing ?f) > 0.005)"
    by (auto simp: outlierCondition_def split: option.splits)
  ultimately show ?thesis
    unfolding outlierStep_cases by (simp add: observedPercentage_def)
qed

theorem aggregated_sample_is_100_times_observed_witness:
  "(2, 1) \<in> set (collectFollowingChars (buildTrie [[1], [1, 2], [1, 3]]) [1]) \<and>
   aggregatePrefix (buildTrie [[1], [1, 2], [1, 3]]) (\<lambda>char. []) [1] 2 = [50] \<and>
   observedPercentage 1 (totalFollowing (collectFollowingChars (buildTrie [[1], [1, 2], [1, 3]]) [1]))
     = 1 / 2"
proof -
  have m: "(2, 1) \<in> set (collectFollowingChars (buildTrie [[1], [1, 2], [1, 3]]) [1])"
    by (simp add: collectFollowingChars_def buildTrie_def Insert_def NewTrie_def newNode_def)
  have t: "totalFollowing (collectFollowingChars (buildTrie [[1], [1, 2], [1, 3]]) [1]) = 2"
    by (simp add: collectFollowingChars_def buildTrie_def Insert_def NewTrie_def newNode_def
          totalFollowing_def)
  show ?thesis
    using m aggregated_sample_is_100_times_observed [OF m, of "\<lambda>char. []" Map.empty False "[]"]
    by (simp add: t)
qed

text \<open>
  Claim C4 as stated fails: for the corpus \<open>[1], [1, 2], [1, 3]\<close> and the prefix \<open>[1]\<close>,
  the aggregator records 50 for the character 2, the detector compares 1/2.
\<close>

theorem observed_value_differs_counterexample:
  "(2, 1) \<in> set (collectFollowingChars (buildTrie [[1], [1, 2], [1, 3]]) [1]) \<and>
   aggregatePrefix (buildTrie [[1], [1, 2], [1, 3]]) (\<lambda>char. []) [1] 2 \<noteq>
     [observedPercentage 1
        (totalFollowing (collectFollowingChars (buildTrie [[1], [1, 2], [1, 3]]) [1]))]"
  by (simp add: collectFollowingChars_def buildTrie_def Insert_def NewTrie_def newNode_def
        totalFollowing_def aggregatePrefix_def aggregateCharacterDistributions_def
        observedPercentage_def)

subsection \<open>Ratio curve\<close>

text \<open>
  Claim C5. For every pair of a standalone count and a following count, \<^verbatim>\<open>calcCurve\<close> flags
  the pair iff the following count is strictly below the required minimum of the table:
  none below 3000 (never flagged), 1 on [3000, 5000], \<open>standalone/500 - 10\<close> on
  (5000, 20000], \<open>standalone/120 - 135\<close> above 20000; 20000 itself is in the middle branch,
  with minimum 30. A prefix is in the flagged set iff one of its records is flagged.
\<close>

theorem calcCurve_table:
  "(calcCurve standalone followup \<longleftrightarrow>
      (case requiredMinimum standalone of None \<Rightarrow> False | Some m \<Rightarrow> followup < m)) \<and>
   (standalone < 3000 \<longrightarrow> \<not> calcCurve standalone followup) \<and>
   (3000 \<le> standalone \<and> standalone \<le> 5000 \<longrightarrow>
      (calcCurve standalone followup \<longleftrightarrow> followup < 1)) \<and>
   (5000 < standalone \<and> standalone \<le> 20000 \<longrightarrow>
      (calcCurve standalone followup \<longleftrightarrow> followup < standalone / 500 - 10)) \<and>
   (20000 < standalone \<longrightarrow>
      (calcCurve standalone followup \<longleftrightarrow> followup < standalone / 120 - 135)) \<and>
   requiredMinimum 20000 = Some 30 \<and>
   (p \<in> identifySuspiciousPasswords records \<longleftrightarrow>
      (\<exists>r \<in> set records. Prefix r = p \<and>
         (case requiredMinimum (StandaloneCount r) of
            None \<Rightarrow> False
          | Some m \<Rightarrow> FollowingCount r < m)))"
proof -
  have flagged: "calcCurve s f \<longleftrightarrow>
      (case requiredMinimum s of None \<Rightarrow> False | Some m \<Rightarrow> f < m)" for s f
    by (simp add: calcCurve_def requiredMinimum_def)
  have branches:
    "(standalone < 3000 \<longrightarrow> \<not> calcCurve standalone followup) \<and>
     (3000 \<le> standalone \<and> standalone \<le> 5000 \<longrightarrow>
        (calcCurve standalone followup \<longleftrightarrow> followup < 1)) \<and>
     (5000 < standalone \<and> standalone \<le> 20000 \<longrightarrow>
        (calcCurve standalone followup \<longleftrightarrow> followup < standalone / 500 - 10)) \<and>
     (20000 < standalone \<longrightarrow>
        (calcCurve standalone followup \<longleftrightarrow> followup < standalone / 120 - 135))"
    by (simp add: calcCurve_def)
  have middle: "requiredMinimum 20000 = Some 30"
    by (simp add: requiredMinimum_def)
  have members: "p \<in> identifySuspiciousPasswords records \<longleftrightarrow>
      (\<exists>r \<in> set records. Prefix r = p \<and> calcCurve (StandaloneCount r) (FollowingCount r))"
    by (auto simp add: identifySuspiciousPasswords_def)
  show ?thesis
    using flagged [of standalone followup] branches middle
    unfolding members flagged [symmetric]
    by blast
qed

theorem calcCurve_table_witness:
  "calcCurve 3000 0 \<and> \<not> calcCurve 3000 1 \<and> (2999::real) < 3000 \<and> \<not> calcCurve 2999 0 \<and>
   (5000::real) < 20000 \<and> (20000::real) \<le> 20000 \<and>
   calcCurve 20000 29 \<and> \<not> calcCurve 20000 30 \<and> calcCurve 20000 (20000 / 500 - 10 - 1) \<and>
   (20000::real) < 24000 \<and> calcCurve 24000 64 \<and> \<not> calcCurve 24000 65 \<and>
   (3000::real) \<le> 5000 \<and> calcCurve 5000 0 \<and> \<not> calcCurve 5000 1"
  using calcCurve_table [of 3000 0] calcCurve_table [of 3000 1] calcCurve_table [of 2999 0]
    calcCurve_table [of 20000 29] calcCurve_table [of 20000 30]
    calcCurve_table [of 20000 "20000 / 500 - 10 - 1"]
    calcCurve_table [of 24000 64] calcCurve_table [of 24000 65]
    calcCurve_table [of 5000 0] calcCurve_table [of 5000 1]
  by (simp add: requiredMinimum_def)

subsection \<open>Percentiles and averages\<close>

lemma int64_id: "- (2 ^ 63) \<le> x \<Longrightarrow> x < 2 ^ 63 \<Longrightarrow> int64 x = x"
  by (simp add: int64_def)

lemma quo_nonneg: "0 \<le> a \<Longrightarrow> 0 < b \<Longrightarrow> quo a b = a div b"
  by (cases "a = 0") (simp_all add: quo_def)

lemma percentile_index:
  assumes "data \<noteq> []" "0 \<le> p" "p * int (length data) < 2 ^ 63"
  shows "calculatePercentile data p =
           Inr (data ! min (nat (p * int (length data) div 100)) (length data - 1))"
proof -
  let ?n = "int (length data)"
  have n: "0 < ?n" using assms(1) by simp
  have prod: "0 \<le> p * ?n" using assms(2) by simp
  have w: "int64 (p * ?n) = p * ?n"
    using prod assms(3) by (intro int64_id) simp_all
  have q: "quo (int64 (p * ?n)) 100 = p * ?n div 100"
    unfolding w using prod by (simp add: quo_nonneg)
  have d: "0 \<le> p * ?n div 100" using prod by simp
  show ?thesis
  proof (cases "p * ?n div 100 \<ge> ?n")
    case True
    then have "min (nat (p * ?n div 100)) (length data - 1) = length data - 1"
      using n by simp
    moreover have "nat (?n - 1) = length data - 1" by simp
    ultimately show ?thesis
      using True n q by (simp add: calculatePercentile_def Let_def)
  next
    case False
    then have "min (nat (p * ?n div 100)) (length data - 1) = nat (p * ?n div 100)"
      using n d by simp
    then show ?thesis
      using False n q d by (simp add: calculatePercentile_def Let_def)
  qed
qed

lemma floor_index:
  "0 \<le> p \<Longrightarrow> nat \<lfloor>real_of_int p * real n / 100\<rfloor> = nat (p * int n div 100)"
proof -
  have "real_of_int p * real n / 100 = real_of_int (p * int n) / real_of_int 100"
    by simp
  then have "\<lfloor>real_of_int p * real n / 100\<rfloor> = p * int n div 100"
    by (simp only: floor_divide_of_int_eq)
  then show ?thesis by simp
qed

text \<open>
  Claim C6. For a non-empty sample list of length \<open>N\<close> and a percentile \<open>p \<ge> 0\<close> (with
  \<open>p \<times> N\<close> inside the 64-bit range), \<^verbatim>\<open>calculatePercentile\<close> returns the element at index
  \<open>floor (p \<times> N / 100)\<close>, or the last element when that index is beyond the end; no
  interpolation takes place. The list is the sorted one when called from
  \<^verbatim>\<open>calculateAverageAndRange\<close>.
\<close>

theorem calculatePercentile_nearest_rank:
  assumes "data \<noteq> []" "0 \<le> p" "p * int (length data) < 2 ^ 63"
  shows "calculatePercentile data p =
           Inr (data ! min (nat \<lfloor>real_of_int p * real (length data) / 100\<rfloor>) (length data - 1)) \<and>
         (95 * int (length data) < 2 ^ 63 \<longrightarrow>
            (\<exists>avg. characterRange data =
               Inr \<lparr> average = avg,
                     lower_quartile =
                       sort data ! min (nat \<lfloor>5 * real (length data) / 100\<rfloor>) (length data - 1),
                     upper_quartile =
                       sort data ! min (nat \<lfloor>95 * real (length data) / 100\<rfloor>) (length data - 1) \<rparr>))"
proof (intro conjI impI)
  show "calculatePercentile data p =
      Inr (data ! min (nat \<lfloor>real_of_int p * real (length data) / 100\<rfloor>) (length data - 1))"
    using percentile_index [OF assms] floor_index [OF assms(2), of "length data"]
    by simp
next
  assume b: "95 * int (length data) < 2 ^ 63"
  have ne: "sort data \<noteq> []" using assms(1) by (metis length_0_conv length_sort)
  have b95: "95 * int (length (sort data)) < 2 ^ 63" using b by simp
  have b5: "5 * int (length (sort data)) < 2 ^ 63" using b by simp
  have lo: "calculatePercentile (sort data) 5 =
      Inr (sort data ! min (nat \<lfloor>5 * real (length data) / 100\<rfloor>) (length data - 1))"
    using percentile_index [OF ne _ b5] floor_index [of 5 "length data"] by simp
  have hi: "calculatePercentile (sort data) 95 =
      Inr (sort data ! min (nat \<lfloor>95 * real (length data) / 100\<rfloor>) (length data - 1))"
    using percentile_index [OF ne _ b95] floor_index [of 95 "length data"] by simp
  show "\<exists>avg. characterRange data =
               Inr \<lparr> average = avg,
                     lower_quartile =
                       sort data ! min (nat \<lfloor>5 * real (length data) / 100\<rfloor>) (length data - 1),
                     upper_quartile =
                       sort data ! min (nat \<lfloor>95 * real (length data) / 100\<rfloor>) (length data - 1) \<rparr>"
    unfolding characterRange_def Let_def lo hi by simp
qed

theorem calculatePercentile_nearest_rank_witness:
  "[1, 2, 3, 4, 5, 6, 7, 8, 9, 10] \<noteq> ([] :: real list) \<and>
   (0::int) \<le> 5 \<and> 5 * int (length [1, 2, 3, 4, 5, 6, 7, 8, 9, 10 :: real]) < 2 ^ 63 \<and>
   calculatePercentile [1, 2, 3, 4, 5, 6, 7, 8, 9, 10] 5 = Inr 1 \<and>
   (0::int) \<le> 95 \<and> 95 * int (length [1, 2, 3, 4, 5, 6, 7, 8, 9, 10 :: real]) < 2 ^ 63 \<and>
   calculatePercentile [1, 2, 3, 4, 5, 6, 7, 8, 9, 10] 95 = Inr 10 \<and>
   (0::int) \<le> 100 \<and> 100 * int (length [1, 2, 3, 4, 5, 6, 7, 8, 9, 10 :: real]) < 2 ^ 63 \<and>
   calculatePercentile [1, 2, 3, 4, 5, 6, 7, 8, 9, 10] 100 = Inr 10 \<and>
   characterRange [3, 1, 2, 10, 9, 8, 4, 5, 6, 7] =
     Inr \<lparr> average = Some (11 / 2), lower_quartile = 1, upper_quartile = 10 \<rparr>"
proof -
  have ne': "[3, 1, 2, 10, 9, 8, 4, 5, 6, 7] \<noteq> ([] :: real list)" by simp
  have b': "95 * int (length [3, 1, 2, 10, 9, 8, 4, 5, 6, 7 :: real]) < 2 ^ 63" by simp
  have s: "sort [3, 1, 2, 10, 9, 8, 4, 5, 6, 7 :: real] = [1, 2, 3, 4, 5, 6, 7, 8, 9, 10]"
    by simp
  have a: "calculateAverage [1, 2, 3, 4, 5, 6, 7, 8, 9, 10] = Some (11 / 2)"
    by (simp add: calculateAverage_def)
  have ne: "[1, 2, 3, 4, 5, 6, 7, 8, 9, 10] \<noteq> ([] :: real list)" by simp
  have b5: "5 * int (length [1, 2, 3, 4, 5, 6, 7, 8, 9, 10 :: real]) < 2 ^ 63" by simp
  have b95: "95 * int (length [1, 2, 3, 4, 5, 6, 7, 8, 9, 10 :: real]) < 2 ^ 63" by simp
  have b100: "100 * int (length [1, 2, 3, 4, 5, 6, 7, 8, 9, 10 :: real]) < 2 ^ 63" by simp
  have f5: "\<lfloor>(50::real) / 100\<rfloor> = 0" by simp
  have f95: "\<lfloor>(950::real) / 100\<rfloor> = 9" by (simp add: floor_eq_iff)
  show ?thesis
    using calculatePercentile_nearest_rank [OF ne _ b5]
      calculatePercentile_nearest_rank [OF ne _ b95]
      calculatePercentile_nearest_rank [OF ne _ b100]
      calculatePercentile_nearest_rank [OF ne' _ b']
    by (simp add: f5 f95 s a characterRange_def)
qed

subsection \<open>Order independence of the baseline\<close>

lemma sort_mset_eq: "mset xs = mset ys \<Longrightarrow> sort xs = sort (ys :: real list)"
  by (rule properties_for_sort) simp_all

lemma characterRange_mset: "mset xs = mset ys \<Longrightarrow> characterRange xs = characterRange ys"
  by (simp add: characterRange_def sort_mset_eq [of xs ys])

lemma range_mset:
  assumes "\<And>c. mset (g c) = mset (g' c)"
  shows "calculateAverageAndRange g = calculateAverageAndRange g'"
proof
  fix c
  have e: "g c = [] \<longleftrightarrow> g' c = []" using assms [of c] by (metis mset_zero_iff)
  show "calculateAverageAndRange g c = calculateAverageAndRange g' c"
    using e characterRange_mset [OF assms [of c]] by (simp add: calculateAverageAndRange_def)
qed

lemma aggregatePrefix_appends:
  "aggregatePrefix t g p c = g c @ aggregatePrefix t (\<lambda>char. []) p c"
  by (simp add: aggregatePrefix_def Let_def aggregate_appends)

lemma aggregatePrefixes_appends:
  "foldl (aggregatePrefix t) g ps c = g c @ foldl (aggregatePrefix t) (\<lambda>char. []) ps c"
proof (induction ps arbitrary: g)
  case Nil
  show ?case by simp
next
  case (Cons p ps)
  show ?case
    using Cons.IH [of "aggregatePrefix t g p"] Cons.IH [of "aggregatePrefix t (\<lambda>char. []) p"]
      aggregatePrefix_appends [of t g p c]
    by simp
qed

lemma walkFn_appends:
  "\<exists>logged'. distributionsWalkFn th (g, logged) e =
      Inr (\<lambda>c. g c @ entrySamples th e c, logged')"
proof (cases e)
  case (AccessError path)
  then show ?thesis by (simp add: distributionsWalkFn_def entrySamples_def)
next
  case (Visited path name content)
  show ?thesis
  proof (cases "suffix passwordsSuffix name")
    case True
    obtain t d where l: "LoadCredentialsFromFile path content NewTrie = (t, d)"
      by (cases "LoadCredentialsFromFile path content NewTrie")
    have "foldl (aggregatePrefix t) g (collectHighStandalone t th) =
        (\<lambda>c. g c @ foldl (aggregatePrefix t) (\<lambda>char. []) (collectHighStandalone t th) c)"
      using aggregatePrefixes_appends [of t g] by blast
    then show ?thesis
      using True Visited l by (simp add: distributionsWalkFn_def entrySamples_def)
  next
    case False
    then show ?thesis using Visited by (simp add: distributionsWalkFn_def entrySamples_def)
  qed
qed

lemma walk_appends:
  "\<exists>logged'. Walk (distributionsWalkFn th) (g, logged) es =
      Inr (\<lambda>c. g c @ concat (map (\<lambda>e. entrySamples th e c) es), logged')"
proof (induction es arbitrary: g logged)
  case Nil
  show ?case by simp
next
  case (Cons e es)
  obtain l1 where s: "distributionsWalkFn th (g, logged) e =
      Inr (\<lambda>c. g c @ entrySamples th e c, l1)"
    using walkFn_appends [of th g logged e] by blast
  obtain l2 where "Walk (distributionsWalkFn th) (\<lambda>c. g c @ entrySamples th e c, l1) es =
      Inr (\<lambda>c. (g c @ entrySamples th e c) @ concat (map (\<lambda>e. entrySamples th e c) es), l2)"
    using Cons.IH [of "\<lambda>c. g c @ entrySamples th e c" l1] by blast
  then show ?case using s by simp
qed

lemma mset_concat_perm:
  "mset es = mset es' \<Longrightarrow> mset (concat (map f es)) = mset (concat (map f es'))"
proof -
  assume a: "mset es = mset es'"
  have "mset (concat (map f xs)) = (\<Sum>x\<in>#mset xs. mset (f x))" for xs
    by (induction xs) simp_all
  then show ?thesis using a by simp
qed

text \<open>
  Claim C8. The baseline computed from the sample lists depends only on the multiset of
  samples of each character: sample lists that are permutations of each other give the same
  average, lower bound and upper bound (the average is taken over the sorted list, so not
  even the order of the additions changes). Hence processing the corpus files in any other
  order yields the same baseline.
\<close>

theorem baseline_order_independent:
  "((\<forall>c. mset (g c) = mset (g' c)) \<longrightarrow>
      calculateAverageAndRange g = calculateAverageAndRange g') \<and>
   (mset srcDir = mset srcDir' \<longrightarrow>
      (\<exists>baseline logged logged'.
         ScanForCharacterDistributions srcDir th = Inr (baseline, logged) \<and>
         ScanForCharacterDistributions srcDir' th = Inr (baseline, logged')))"
proof (intro conjI impI)
  assume "\<forall>c. mset (g c) = mset (g' c)"
  then show "calculateAverageAndRange g = calculateAverageAndRange g'"
    using range_mset [of g g'] by blast
next
  assume p: "mset srcDir = mset srcDir'"
  obtain l where w: "Walk (distributionsWalkFn th) (\<lambda>char. [], []) srcDir =
      Inr (\<lambda>c. concat (map (\<lambda>e. entrySamples th e c) srcDir), l)"
    using walk_appends [of th "\<lambda>char. []" "[]" srcDir] by auto
  obtain l' where w': "Walk (distributionsWalkFn th) (\<lambda>char. [], []) srcDir' =
      Inr (\<lambda>c. concat (map (\<lambda>e. entrySamples th e c) srcDir'), l')"
    using walk_appends [of th "\<lambda>char. []" "[]" srcDir'] by auto
  have "calculateAverageAndRange (\<lambda>c. concat (map (\<lambda>e. entrySamples th e c) srcDir)) =
        calculateAverageAndRange (\<lambda>c. concat (map (\<lambda>e. entrySamples th e c) srcDir'))"
    by (rule range_mset) (rule mset_concat_perm [OF p])
  then show "\<exists>baseline logged logged'.
         ScanForCharacterDistributions srcDir th = Inr (baseline, logged) \<and>
         ScanForCharacterDistributions srcDir' th = Inr (baseline, logged')"
    using w w' by (simp add: ScanForCharacterDistributions_def)
qed

theorem baseline_order_independent_witness:
  "calculateAverageAndRange (\<lambda>c. if c = 1 then [30, 10, 20] else []) =
     calculateAverageAndRange (\<lambda>c. if c = 1 then [20, 30, 10] else []) \<and>
   mset [Visited ''d/a_passwords.txt'' ''a_passwords.txt''
           (Scanned [[0x75, 0x3A, 0x61], [0x75, 0x3A, 0x61, 0x62]] False),
         AccessError ''d/b_passwords.txt''] =
   mset [AccessError ''d/b_passwords.txt'',
         Visited ''d/a_passwords.txt'' ''a_passwords.txt''
           (Scanned [[0x75, 0x3A, 0x61], [0x75, 0x3A, 0x61, 0x62]] False)] \<and>
   (\<exists>baseline logged logged'.
      ScanForCharacterDistributions
        [Visited ''d/a_passwords.txt'' ''a_passwords.txt''
           (Scanned [[0x75, 0x3A, 0x61], [0x75, 0x3A, 0x61, 0x62]] False),
         AccessError ''d/b_passwords.txt''] 0 = Inr (baseline, logged) \<and>
      ScanForCharacterDistributions
        [AccessError ''d/b_passwords.txt'',
         Visited ''d/a_passwords.txt'' ''a_passwords.txt''
           (Scanned [[0x75, 0x3A, 0x61], [0x75, 0x3A, 0x61, 0x62]] False)] 0 =
        Inr (baseline, logged'))"
proof -
  have h: "\<forall>c::rune. mset (if c = 1 then [30, 10, 20] else []) =
      mset (if c = 1 then [20, 30, 10 :: real] else [])"
    by simp
  have m: "mset [Visited ''d/a_passwords.txt'' ''a_passwords.txt''
           (Scanned [[0x75, 0x3A, 0x61], [0x75, 0x3A, 0x61, 0x62]] False),
         AccessError ''d/b_passwords.txt''] =
   mset [AccessError ''d/b_passwords.txt'',
         Visited ''d/a_passwords.txt'' ''a_passwords.txt''
           (Scanned [[0x75, 0x3A, 0x61], [0x75, 0x3A, 0x61, 0x62]] False)]"
    by simp
  show ?thesis
    using h m
      baseline_order_independent
        [of "\<lambda>c. if c = 1 then [30, 10, 20] else []" "\<lambda>c. if c = 1 then [20, 30, 10] else []"
            "[Visited ''d/a_passwords.txt'' ''a_passwords.txt''
                (Scanned [[0x75, 0x3A, 0x61], [0x75, 0x3A, 0x61, 0x62]] False),
              AccessError ''d/b_passwords.txt'']"
            "[AccessError ''d/b_passwords.txt'',
              Visited ''d/a_passwords.txt'' ''a_passwords.txt''
                (Scanned [[0x75, 0x3A, 0x61], [0x75, 0x3A, 0x61, 0x62]] False)]" 0]
    by blast
qed

subsection \<open>Lines of a corpus file\<close>

lemma Split_nonempty: "Split s sep \<noteq> []"
  by (induction s) (simp_all add: Let_def)

lemma Split_no_sep: "sep \<notin> set s \<Longrightarrow> Split s sep = [s]"
  by (induction s) (auto simp add: Let_def)

lemma Split_hd: "hd (Split s sep) = takeWhile (\<lambda>c. c \<noteq> sep) s"
  by (induction s) (simp_all add: Let_def)

lemma Split_sep:
  "sep \<in> set s \<Longrightarrow>
     Split s sep = takeWhile (\<lambda>c. c \<noteq> sep) s # Split (afterFirst sep s) sep"
proof (induction s)
  case Nil
  then show ?case by simp
next
  case (Cons c s)
  show ?case
  proof (cases "c = sep")
    case True
    then show ?thesis by (simp add: afterFirst_def)
  next
    case False
    then have "sep \<in> set s" using Cons.prems by simp
    then show ?thesis using False Cons.IH by (simp add: afterFirst_def Let_def)
  qed
qed

lemma Split_second:
  "sep \<in> set s \<Longrightarrow> length (Split s sep) \<ge> 2 \<and> Split s sep ! 1 = secondField sep s"
proof -
  assume a: "sep \<in> set s"
  obtain x xs where r: "Split (afterFirst sep s) sep = x # xs"
    using Split_nonempty [of "afterFirst sep s" sep] by (cases "Split (afterFirst sep s) sep") auto
  have "x = secondField sep s"
    using Split_hd [of "afterFirst sep s" sep] r by (simp add: secondField_def)
  then show ?thesis using Split_sep [OF a] r by simp
qed

lemma processLine_cases:
  "processLine t line =
     (if colon \<notin> set line then t
      else if TrimSpace (secondField colon line) = [] then t
      else Insert t (TrimSpace (secondField colon line)))"
proof (cases "colon \<in> set line")
  case True
  then show ?thesis
    using Split_second [OF True] by (simp add: processLine_def Let_def)
next
  case False
  then show ?thesis by (simp add: processLine_def Split_no_sep)
qed

text \<open>
  Claim C7, as amended. For every line: a line without a colon inserts nothing; a line with
  a colon inserts the whitespace-trimmed text between the first colon and the next colon
  (the end of the line when there is no second colon), unless that text is empty after
  trimming, in which case it inserts nothing. When the line has exactly one colon this is
  the trimmed text after the first colon.
\<close>

theorem processLine_second_field:
  "processLine t line =
     (if colon \<notin> set line then t
      else if TrimSpace (secondField colon line) = [] then t
      else Insert t (TrimSpace (secondField colon line))) \<and>
   (colon \<notin> set (afterFirst colon line) \<longrightarrow> secondField colon line = afterFirst colon line) \<and>
   (\<exists>diagnostics.
      LoadCredentialsFromFile path (Scanned scannedLines readError) t =
        (foldl processLine t scannedLines, diagnostics))"
proof -
  have "colon \<notin> set (afterFirst colon line) \<Longrightarrow> secondField colon line = afterFirst colon line"
    unfolding secondField_def by (rule takeWhile_eq_all_conv [THEN iffD2]) blast
  then show ?thesis
    using processLine_cases [of t line] by (simp add: LoadCredentialsFromFile_def)
qed

theorem processLine_second_field_witness:
  "colon \<in> set [0x75, 0x3A, 0x20, 0x61, 0x62, 0x09] \<and>
   colon \<notin> set (afterFirst colon [0x75, 0x3A, 0x20, 0x61, 0x62, 0x09]) \<and>
   processLine NewTrie [0x75, 0x3A, 0x20, 0x61, 0x62, 0x09] = Insert NewTrie [0x61, 0x62] \<and>
   TrimSpace (afterFirst colon [0x75, 0x3A, 0x20, 0x61, 0x62, 0x09]) = [0x61, 0x62] \<and>
   processLine NewTrie [0x75, 0x61] = NewTrie \<and>
   processLine NewTrie [0x75, 0x3A, 0x20, 0x20] = NewTrie \<and>
   processLine NewTrie [0x75, 0x3A] = NewTrie"
  using processLine_second_field [of NewTrie "[0x75, 0x3A, 0x20, 0x61, 0x62, 0x09]"]
    processLine_second_field [of NewTrie "[0x75, 0x61]"]
    processLine_second_field [of NewTrie "[0x75, 0x3A, 0x20, 0x20]"]
    processLine_second_field [of NewTrie "[0x75, 0x3A]"]
  by (simp add: colon_def afterFirst_def secondField_def TrimSpace_def IsSpace_def)

text \<open>
  Claim C7 as stated fails on a line with a second colon: from \<^verbatim>\<open>u:a:b\<close> the code inserts
  \<^verbatim>\<open>a\<close>, the text after the first colon is \<^verbatim>\<open>a:b\<close>.
\<close>

theorem text_after_first_colon_counterexample:
  "colon \<in> set [0x75, 0x3A, 0x61, 0x3A, 0x62] \<and>
   TrimSpace (afterFirst colon [0x75, 0x3A, 0x61, 0x3A, 0x62]) = [0x61, 0x3A, 0x62] \<and>
   processLine NewTrie [0x75, 0x3A, 0x61, 0x3A, 0x62] = Insert NewTrie [0x61] \<and>
   processLine NewTrie [0x75, 0x3A, 0x61, 0x3A, 0x62] \<noteq>
     Insert NewTrie (TrimSpace (afterFirst colon [0x75, 0x3A, 0x61, 0x3A, 0x62]))"
  by (simp add: processLine_def colon_def afterFirst_def TrimSpace_def IsSpace_def Let_def
        Insert_def NewTrie_def newNode_def)

subsection \<open>Failures during the directory walk\<close>

lemma following_NewTrie: "collectFollowingChars NewTrie p = []"
  by (cases p) (simp_all add: collectFollowingChars_def NewTrie_def newNode_def)

lemma highStandalone_NewTrie:
  "collectHighStandalone NewTrie th = (if 0 > th then [[]] else [])"
  by (simp add: collectHighStandalone_def NewTrie_def newNode_def)

lemma aggregatePrefix_NewTrie: "aggregatePrefix NewTrie g p = g"
  by (simp add: aggregatePrefix_def following_NewTrie totalFollowing_def)

lemma scanPrefix_NewTrie: "scanPrefix G NewTrie p = None"
  by (simp add: scanPrefix_def following_NewTrie totalFollowing_def)

lemma distributions_access:
  "distributionsWalkFn th (g, l) (AccessError path) = Inr (g, l @ [ErrorAccessing path])"
  by (simp add: distributionsWalkFn_def)

lemma suspicious_access:
  "suspiciousWalkFn G th (w, l) (AccessError path) = Inr (w, l @ [ErrorAccessing path])"
  by (simp add: suspiciousWalkFn_def)

lemma statistics_access:
  "statisticsWalkFn th (a, l) (AccessError path) = Inl (AccessFailure path)"
  by (simp add: statisticsWalkFn_def)

lemma distributions_open:
  "suffix passwordsSuffix name \<Longrightarrow>
   distributionsWalkFn th (g, l) (Visited path name OpenError) = Inr (g, l @ [ErrorOpening path])"
  by (simp add: distributionsWalkFn_def LoadCredentialsFromFile_def highStandalone_NewTrie
        aggregatePrefix_NewTrie)

lemma suspicious_open:
  "suffix passwordsSuffix name \<Longrightarrow>
   suspiciousWalkFn G th (w, l) (Visited path name OpenError) =
     Inr (w @ [\<lparr> reportFile = name, reportBlocks = [] \<rparr>], l @ [ErrorOpening path])"
  by (simp add: suspiciousWalkFn_def LoadCredentialsFromFile_def highStandalone_NewTrie
        scanPrefix_NewTrie)

lemma statistics_open:
  "suffix passwordsSuffix name \<Longrightarrow>
   statisticsWalkFn th (a, l) (Visited path name OpenError) =
     Inr (a(TrimSuffix name passwordsSuffix \<mapsto>
            (if 0 > th
             then [\<lparr> statsPrefix = [], statsStandaloneCount = 0, statsFollowingCount = 0 \<rparr>]
             else [])),
          l @ [ErrorOpening path])"
  by (simp add: statisticsWalkFn_def LoadCredentialsFromFile_def NewTrie_def newNode_def)

lemma load_read_error:
  "LoadCredentialsFromFile path (Scanned scannedLines True) t =
     (fst (LoadCredentialsFromFile path (Scanned scannedLines False) t), [ErrorReading path])"
  by (simp add: LoadCredentialsFromFile_def)

lemma distributions_never_fail: "\<exists>st. distributionsWalkFn th s e = Inr st"
  by (cases s; cases e)
     (auto simp add: distributionsWalkFn_def Let_def split: prod.splits)

lemma suspicious_never_fail: "\<exists>st. suspiciousWalkFn G th s e = Inr st"
  by (cases s; cases e)
     (auto simp add: suspiciousWalkFn_def Let_def split: prod.splits)

lemma Walk_never_fails:
  "(\<And>s e. \<exists>st. fn s e = Inr st) \<Longrightarrow> \<exists>st. Walk fn s es = Inr st"
proof (induction es arbitrary: s)
  case Nil
  show ?case by simp
next
  case (Cons e es)
  obtain s' where "fn s e = Inr s'" using Cons.prems [of s e] by blast
  then show ?case using Cons.IH [OF Cons.prems, of s'] by simp
qed

lemma Walk_append:
  "Walk fn s (es @ es') = (case Walk fn s es of Inl err \<Rightarrow> Inl err | Inr s' \<Rightarrow> Walk fn s' es')"
  by (induction es arbitrary: s) (simp_all split: sum.splits)

lemma statistics_visited: "\<exists>st. statisticsWalkFn th s (Visited path name content) = Inr st"
  by (cases s) (auto simp add: statisticsWalkFn_def Let_def split: prod.splits)

lemma statistics_walk_fails:
  "isl (Walk (statisticsWalkFn th) s es) \<longleftrightarrow> (\<exists>e \<in> set es. isAccessError e)"
proof (induction es arbitrary: s)
  case Nil
  show ?case by simp
next
  case (Cons e es)
  show ?case
  proof (cases e)
    case (AccessError path)
    then show ?thesis by (cases s) (simp add: statistics_access)
  next
    case (Visited path name content)
    obtain s' where "statisticsWalkFn th s e = Inr s'"
      using statistics_visited [of th s path name content] Visited by blast
    then show ?thesis using Cons.IH [of s'] Visited by simp
  qed
qed

lemma statistics_walk_stops:
  "GeneratePrefixStatistics (es @ AccessError path # es') th =
     (case GeneratePrefixStatistics es th of
        Inl err \<Rightarrow> Inl err
      | Inr st \<Rightarrow> Inl (AccessFailure path))"
  unfolding GeneratePrefixStatistics_def Walk_append
  by (auto simp add: statistics_access split: sum.splits)

lemma entrySamples_unreadable: "unreadable e \<Longrightarrow> entrySamples th e c = []"
proof (cases e rule: unreadable.cases)
  case (1 path)
  then show ?thesis by (simp add: entrySamples_def distributionsWalkFn_def)
next
  case (2 path name)
  assume "unreadable e"
  show ?thesis
  proof (cases "suffix passwordsSuffix name")
    case True
    then show ?thesis
      using 2 distributions_open [of name th "\<lambda>char. []" "[]" path]
      by (simp add: entrySamples_def)
  next
    case False
    then show ?thesis using 2 by (simp add: entrySamples_def distributionsWalkFn_def)
  qed
next
  case (3 path name scannedLines readError)
  assume "unreadable e"
  then show ?thesis using 3 by simp
qed

lemma samples_skip_unreadable:
  "concat (map (\<lambda>e. entrySamples th e c) (filter (\<lambda>e. \<not> unreadable e) es)) =
   concat (map (\<lambda>e. entrySamples th e c) es)"
  by (induction es) (simp_all add: entrySamples_unreadable)

lemma distributions_skip_unreadable:
  "\<exists>baseline logged logged'.
     ScanForCharacterDistributions es th = Inr (baseline, logged) \<and>
     ScanForCharacterDistributions (filter (\<lambda>e. \<not> unreadable e) es) th = Inr (baseline, logged')"
proof -
  obtain l where w: "Walk (distributionsWalkFn th) (\<lambda>char. [], []) es =
      Inr (\<lambda>c. concat (map (\<lambda>e. entrySamples th e c) es), l)"
    using walk_appends [of th "\<lambda>char. []" "[]" es] by auto
  obtain l' where w': "Walk (distributionsWalkFn th) (\<lambda>char. [], [])
        (filter (\<lambda>e. \<not> unreadable e) es) =
      Inr (\<lambda>c. concat (map (\<lambda>e. entrySamples th e c) es), l')"
    using walk_appends [of th "\<lambda>char. []" "[]" "filter (\<lambda>e. \<not> unreadable e) es"]
    by (auto simp add: samples_skip_unreadable)
  show ?thesis using w w' by (simp add: ScanForCharacterDistributions_def)
qed

text \<open>
  How the walk functions treat a path that cannot be accessed, a file that cannot be opened
  and a read failure: the first two modes log an inaccessible path and go on; in every mode
  a file that cannot be opened is logged and leaves an empty trie, so that the baseline is
  the one of the walk without such entries, and a read failure is logged with the lines
  scanned before it kept; the ratio-statistics walk ends at the first inaccessible path.
\<close>

lemma failure_handling_steps:
  "distributionsWalkFn th (g, l) (AccessError path) = Inr (g, l @ [ErrorAccessing path]) \<and>
   suspiciousWalkFn G th (w, l) (AccessError path) = Inr (w, l @ [ErrorAccessing path]) \<and>
   (suffix passwordsSuffix name \<longrightarrow>
      distributionsWalkFn th (g, l) (Visited path name OpenError) =
        Inr (g, l @ [ErrorOpening path]) \<and>
      suspiciousWalkFn G th (w, l) (Visited path name OpenError) =
        Inr (w @ [\<lparr> reportFile = name, reportBlocks = [] \<rparr>], l @ [ErrorOpening path]) \<and>
      statisticsWalkFn th (a, l) (Visited path name OpenError) =
        Inr (a(TrimSuffix name passwordsSuffix \<mapsto>
               (if 0 > th
                then [\<lparr> statsPrefix = [], statsStandaloneCount = 0, statsFollowingCount = 0 \<rparr>]
                else [])),
             l @ [ErrorOpening path])) \<and>
   (\<exists>baseline logged logged'.
      ScanForCharacterDistributions srcDir th = Inr (baseline, logged) \<and>
      ScanForCharacterDistributions (filter (\<lambda>e. \<not> unreadable e) srcDir) th =
        Inr (baseline, logged')) \<and>
   LoadCredentialsFromFile path (Scanned scannedLines True) t =
     (fst (LoadCredentialsFromFile path (Scanned scannedLines False) t), [ErrorReading path]) \<and>
   GeneratePrefixStatistics (srcDir @ AccessError path # rest) th =
     (case GeneratePrefixStatistics srcDir th of
        Inl err \<Rightarrow> Inl err
      | Inr st \<Rightarrow> Inl (AccessFailure path))"
  using distributions_access [of th g l path] suspicious_access [of G th w l path]
    distributions_open [of name th g l path] suspicious_open [of name G th w l path]
    statistics_open [of name th a l path] distributions_skip_unreadable [of srcDir th]
    load_read_error [of path scannedLines t] statistics_walk_stops [of srcDir path rest th]
  by blast

text \<open>
  Claim C9 (a failure of the directory walk itself aborts the run, and only such a failure
  does). The ratio-statistics mode does so: \<^verbatim>\<open>GeneratePrefixStatistics\<close> returns an error
  exactly when the walk reports a failure. The baseline-build and outlier-detect modes do
  not: when the walk cannot access the source directory itself, the only call of the walk
  function carries that error, the function logs it and returns nil, and the run finishes
  normally with an empty baseline, respectively an empty report; for no walk at all do
  \<^verbatim>\<open>ScanForCharacterDistributions\<close> and \<^verbatim>\<open>ScanForSuspiciousPrefixes\<close> reach their
  \<^verbatim>\<open>log.Fatalf("Error walking through directory: ...")\<close>.
\<close>

theorem walk_failure_not_fatal:
  "ScanForCharacterDistributions [AccessError ''OrganizedPasswords''] 50000 =
     Inr (Map.empty, [ErrorAccessing ''OrganizedPasswords'']) \<and>
   ScanForSuspiciousPrefixes G [AccessError ''../OrganizedPasswords/''] 1000 =
     Inr ([], [ErrorAccessing ''../OrganizedPasswords/'']) \<and>
   GeneratePrefixStatistics [AccessError ''../OrganizedPasswords''] 1000 =
     Inl (AccessFailure ''../OrganizedPasswords'') \<and>
   \<not> isl (ScanForCharacterDistributions srcDir th) \<and>
   \<not> isl (ScanForSuspiciousPrefixes G srcDir th) \<and>
   (isl (GeneratePrefixStatistics srcDir th) \<longleftrightarrow> list_ex isAccessError srcDir)"
proof -
  have 1: "ScanForCharacterDistributions [AccessError ''OrganizedPasswords''] 50000 =
      Inr (Map.empty, [ErrorAccessing ''OrganizedPasswords''])"
    by (simp add: ScanForCharacterDistributions_def distributionsWalkFn_def
          calculateAverageAndRange_def)
  have 2: "ScanForSuspiciousPrefixes G [AccessError ''../OrganizedPasswords/''] 1000 =
      Inr ([], [ErrorAccessing ''../OrganizedPasswords/''])"
    by (simp add: ScanForSuspiciousPrefixes_def suspiciousWalkFn_def)
  have 3: "GeneratePrefixStatistics [AccessError ''../OrganizedPasswords''] 1000 =
      Inl (AccessFailure ''../OrganizedPasswords'')"
    by (simp add: GeneratePrefixStatistics_def statisticsWalkFn_def)
  obtain st where "ScanForCharacterDistributions srcDir th = Inr st"
    using distributions_skip_unreadable [of srcDir th] by blast
  then have 4: "\<not> isl (ScanForCharacterDistributions srcDir th)" by simp
  obtain st' where "ScanForSuspiciousPrefixes G srcDir th = Inr st'"
    unfolding ScanForSuspiciousPrefixes_def
    using Walk_never_fails [of "suspiciousWalkFn G th" "([], [])" srcDir]
      suspicious_never_fail [of G th]
    by blast
  then have 5: "\<not> isl (ScanForSuspiciousPrefixes G srcDir th)" by simp
  have 6: "isl (GeneratePrefixStatistics srcDir th) \<longleftrightarrow> list_ex isAccessError srcDir"
    unfolding GeneratePrefixStatistics_def list_ex_iff by (rule statistics_walk_fails)
  show ?thesis using 1 2 3 4 5 6 by blast
qed

subsection \<open>Reports of the outlier detector\<close>

lemma scanPrefix_cases:
  "scanPrefix G t p =
     (if \<exists>e \<in> set (collectFollowingChars t p).
            outlierCondition G (totalFollowing (collectFollowingChars t p)) e
      then Some \<lparr> reportPrefix = p,
                  reportStandalone = CountStandaloneOccurrences t p,
                  reportTotalFollowing = totalFollowing (collectFollowingChars t p),
                  reportOutliers =
                    map (\<lambda>(c, k).
                           (c, observedPercentage k (totalFollowing (collectFollowingChars t p)) * 100))
                      (filter (outlierCondition G (totalFollowing (collectFollowingChars t p)))
                         (collectFollowingChars t p)) \<rparr>
      else None)"
  by (simp add: scanPrefix_def Let_def outlier_foldl)

lemma blocks_prefixes:
  "map reportPrefix (List.map_filter (scanPrefix G t) ps) =
     filter (\<lambda>p. \<exists>e \<in> set (collectFollowingChars t p).
                 outlierCondition G (totalFollowing (collectFollowingChars t p)) e) ps"
  by (induction ps) (simp_all add: scanPrefix_cases)

lemma blocks_contents:
  "r \<in> set (List.map_filter (scanPrefix G t) ps) \<Longrightarrow>
     reportPrefix r \<in> set ps \<and> scanPrefix G t (reportPrefix r) = Some r"
proof (induction ps)
  case Nil
  then show ?case by simp
next
  case (Cons p ps)
  show ?case
  proof (cases "scanPrefix G t p")
    case None
    then show ?thesis using Cons by simp
  next
    case (Some b)
    then have "reportPrefix b = p"
      by (simp add: scanPrefix_cases split: if_splits) auto
    then show ?thesis using Cons Some by auto
  qed
qed

lemma processLines_inserts: "\<exists>ws. foldl processLine t scannedLines = foldl Insert t ws"
proof (induction scannedLines arbitrary: t)
  case Nil
  have "foldl processLine t [] = foldl Insert t []" by simp
  then show ?case by blast
next
  case (Cons line scannedLines)
  obtain ws where w: "foldl processLine (processLine t line) scannedLines =
      foldl Insert (processLine t line) ws"
    using Cons [of "processLine t line"] by blast
  show ?case
  proof (cases "processLine t line = t")
    case True
    then have "foldl processLine t (line # scannedLines) = foldl Insert t ws" using w by simp
    then show ?thesis by blast
  next
    case False
    then have "processLine t line = Insert t (TrimSpace (secondField colon line))"
      by (simp add: processLine_cases split: if_splits)
    then have "foldl processLine t (line # scannedLines) =
        foldl Insert t (TrimSpace (secondField colon line) # ws)"
      using w by simp
    then show ?thesis by blast
  qed
qed

lemma loaded_trie_built: "\<exists>ws. fst (LoadCredentialsFromFile path content NewTrie) = buildTrie ws"
proof (cases content)
  case OpenError
  have "fst (LoadCredentialsFromFile path OpenError NewTrie) = buildTrie []"
    by (simp add: LoadCredentialsFromFile_def buildTrie_def)
  then show ?thesis using OpenError by blast
next
  case (Scanned scannedLines readError)
  then show ?thesis
    using processLines_inserts [of NewTrie scannedLines]
    by (simp add: LoadCredentialsFromFile_def buildTrie_def)
qed

lemma suspicious_visited:
  "suffix passwordsSuffix name \<Longrightarrow>
   suspiciousWalkFn G th (w, l) (Visited path name content) =
     Inr (w @ [\<lparr> reportFile = name,
                  reportBlocks =
                    List.map_filter
                      (scanPrefix G (fst (LoadCredentialsFromFile path content NewTrie)))
                      (collectHighStandalone
                         (fst (LoadCredentialsFromFile path content NewTrie)) th) \<rparr>],
          l @ snd (LoadCredentialsFromFile path content NewTrie))"
  by (simp add: suspiciousWalkFn_def Let_def split: prod.splits)

lemma suspicious_walk_last:
  "ScanForSuspiciousPrefixes G (srcDir @ [entry]) th =
     (case ScanForSuspiciousPrefixes G srcDir th of
        Inl err \<Rightarrow> Inl err
      | Inr state \<Rightarrow> suspiciousWalkFn G th state entry)"
  unfolding ScanForSuspiciousPrefixes_def Walk_append
  by (simp split: sum.splits)

subsection \<open>Qualifying prefixes\<close>

lemma collect_children:
  assumes "\<And>c child cur res. (c, child) \<in> set ks \<Longrightarrow>
      set (collectHighStandaloneRecursive child cur th res) =
        set res \<union> (\<lambda>q. cur @ q) ` {q. \<exists>n. nodeAt child q = Some n \<and> th < endOfWordCount n}"
  shows "set (foldl (\<lambda>res (char, child).
                collectHighStandaloneRecursive child (cur @ [char]) th res) res ks) =
           set res \<union>
           (\<Union>(c, child) \<in> set ks.
               (\<lambda>q. cur @ c # q) ` {q. \<exists>n. nodeAt child q = Some n \<and> th < endOfWordCount n})"
  using assms
proof (induction ks arbitrary: res)
  case Nil
  show ?case by simp
next
  case (Cons x ks)
  obtain c child where x: "x = (c, child)" by (cases x)
  have h: "set (collectHighStandaloneRecursive child (cur @ [c]) th res) =
      set res \<union> (\<lambda>q. (cur @ [c]) @ q) ` {q. \<exists>n. nodeAt child q = Some n \<and> th < endOfWordCount n}"
    using Cons.prems [of c child "cur @ [c]" res] x by simp
  have t: "set (foldl (\<lambda>res (char, child).
                collectHighStandaloneRecursive child (cur @ [char]) th res)
              (collectHighStandaloneRecursive child (cur @ [c]) th res) ks) =
      set (collectHighStandaloneRecursive child (cur @ [c]) th res) \<union>
      (\<Union>(c, child) \<in> set ks.
          (\<lambda>q. cur @ c # q) ` {q. \<exists>n. nodeAt child q = Some n \<and> th < endOfWordCount n})"
  proof (rule Cons.IH)
    fix c' child' cur' res'
    assume "(c', child') \<in> set ks"
    then have "(c', child') \<in> set (x # ks)" by simp
    then show "set (collectHighStandaloneRecursive child' cur' th res') =
        set res' \<union> (\<lambda>q. cur' @ q) ` {q. \<exists>n. nodeAt child' q = Some n \<and> th < endOfWordCount n}"
      by (rule Cons.prems)
  qed
  show ?case unfolding x using t h by auto
qed

lemma nodeAt_paths:
  assumes "distinct (map fst kids)"
  shows "{q. \<exists>n. nodeAt (TrieNode kids cnt) q = Some n \<and> th < endOfWordCount n} =
     (if th < cnt then {[]} else {}) \<union>
     (\<Union>(c, child) \<in> set kids.
         (\<lambda>q. c # q) ` {q. \<exists>n. nodeAt child q = Some n \<and> th < endOfWordCount n})"
proof (rule set_eqI)
  fix q
  show "q \<in> {q. \<exists>n. nodeAt (TrieNode kids cnt) q = Some n \<and> th < endOfWordCount n} \<longleftrightarrow>
     q \<in> (if th < cnt then {[]} else {}) \<union>
     (\<Union>(c, child) \<in> set kids.
         (\<lambda>q. c # q) ` {q. \<exists>n. nodeAt child q = Some n \<and> th < endOfWordCount n})"
  proof (cases q)
    case Nil
    then show ?thesis by auto
  next
    case (Cons c q')
    have m: "map_of kids c = Some child \<longleftrightarrow> (c, child) \<in> set kids" for child
      using assms by simp
    have u: "(c, a) \<in> set kids \<Longrightarrow> (c, b) \<in> set kids \<Longrightarrow> a = b" for a b
      using assms by (rule eq_key_imp_eq_value)
    show ?thesis
    proof (cases "map_of kids c")
      case None
      then have "\<And>child. (c, child) \<notin> set kids" using m by simp
      then show ?thesis unfolding Cons using None by auto
    next
      case (Some child)
      then have k: "(c, child) \<in> set kids" using m by simp
      have "(\<exists>n. nodeAt child q' = Some n \<and> th < endOfWordCount n) \<longleftrightarrow>
          (\<exists>b. (c, b) \<in> set kids \<and> (\<exists>n. nodeAt b q' = Some n \<and> th < endOfWordCount n))"
        using k u by blast
      then show ?thesis unfolding Cons using Some by auto
    qed
  qed
qed

lemma collect_paths:
  "distinctKeys node \<Longrightarrow>
   set (collectHighStandaloneRecursive node cur th res) =
     set res \<union> (\<lambda>q. cur @ q) ` {q. \<exists>n. nodeAt node q = Some n \<and> th < endOfWordCount n}"
proof (induction node arbitrary: cur res)
  case (TrieNode kids cnt)
  have d: "distinct (map fst kids)" using TrieNode.prems by simp
  have ih: "set (collectHighStandaloneRecursive child cur' th res') =
        set res' \<union> (\<lambda>q. cur' @ q) ` {q. \<exists>n. nodeAt child q = Some n \<and> th < endOfWordCount n}"
    if "(c, child) \<in> set kids" for c child cur' res'
  proof (rule TrieNode.IH [of "(c, child)" child])
    show "(c, child) \<in> set kids" using that .
    show "child \<in> Basic_BNFs.snds (c, child)" by simp
    show "distinctKeys child"
      using TrieNode.prems that by (auto simp add: list_all_iff)
  qed
  have "set (collectHighStandaloneRecursive (TrieNode kids cnt) cur th res) =
      set (if cnt > th then res @ [cur] else res) \<union>
      (\<Union>(c, child) \<in> set kids.
          (\<lambda>q. cur @ c # q) ` {q. \<exists>n. nodeAt child q = Some n \<and> th < endOfWordCount n})"
    unfolding collectHighStandaloneRecursive.simps
    by (rule collect_children) (rule ih)
  also have "\<dots> = set res \<union> (\<lambda>q. cur @ q) `
      ((if th < cnt then {[]} else {}) \<union>
       (\<Union>(c, child) \<in> set kids.
          (\<lambda>q. c # q) ` {q. \<exists>n. nodeAt child q = Some n \<and> th < endOfWordCount n}))"
    by (auto simp add: image_Un image_UN image_image)
  finally show ?case unfolding nodeAt_paths [OF d, of cnt th] .
qed

lemma standaloneFrom_nodeAt: "nodeAt node p = Some n \<Longrightarrow> standaloneFrom node p = endOfWordCount n"
  by (induction p arbitrary: node) (auto split: option.splits)

lemma qualifying_iff:
  "p \<in> set (collectHighStandalone (buildTrie ws) th) \<longleftrightarrow>
     nodeAt (root (buildTrie ws)) p \<noteq> None \<and> th < CountStandaloneOccurrences (buildTrie ws) p"
proof -
  have "p \<in> set (collectHighStandalone (buildTrie ws) th) \<longleftrightarrow>
      (\<exists>n. nodeAt (root (buildTrie ws)) p = Some n \<and> th < endOfWordCount n)"
    using collect_paths [OF distinctKeys_buildTrie, of ws "[]" th "[]"]
    by (simp add: collectHighStandalone_def)
  then show ?thesis
    using standaloneFrom_nodeAt [of "root (buildTrie ws)" p]
    by (auto simp add: CountStandaloneOccurrences_def)
qed

text \<open>
  Claim C3. The outlier detector, for a trie built by \<^verbatim>\<open>Insert\<close> calls and any baseline.
  With \<open>following\<close> the following-character counts of a prefix and \<open>tot\<close> their sum, the
  loop over the following characters sets \<^verbatim>\<open>outlierFound\<close> iff some following character
  meets the outlier condition (observed value \<open>count / tot\<close> strictly above the character's
  baseline upper bound and strictly above 0.005, that is 0.5 per cent), and it collects
  exactly the following characters that meet the condition. The qualifying prefixes are the
  paths of the trie whose standalone count exceeds the threshold. For a corpus file that the
  walk of \<^verbatim>\<open>ScanForSuspiciousPrefixes\<close> visits, the trie loaded from it is such a trie, and
  the blocks written for the file are, in the order of the qualifying prefixes, one block
  for each qualifying prefix that has at least one outlier character and none for any other
  prefix; each block carries the prefix, its standalone count, the sum \<open>tot\<close> and exactly
  its outlier characters.
\<close>

theorem outlier_iff:
  "foldl (outlierStep G (totalFollowing (collectFollowingChars (buildTrie ws) p))) (False, [])
       (collectFollowingChars (buildTrie ws) p) =
     ((\<exists>e \<in> set (collectFollowingChars (buildTrie ws) p).
          outlierCondition G (totalFollowing (collectFollowingChars (buildTrie ws) p)) e),
      map (\<lambda>(c, k).
             (c, observedPercentage k (totalFollowing (collectFollowingChars (buildTrie ws) p)) * 100))
        (filter (outlierCondition G (totalFollowing (collectFollowingChars (buildTrie ws) p)))
           (collectFollowingChars (buildTrie ws) p))) \<and>
   (scanPrefix G (buildTrie ws) p \<noteq> None \<longleftrightarrow>
      (\<exists>e \<in> set (collectFollowingChars (buildTrie ws) p).
          outlierCondition G (totalFollowing (collectFollowingChars (buildTrie ws) p)) e)) \<and>
   (\<forall>c k. outlierCondition G tot (c, k) \<longleftrightarrow>
      (\<exists>stats. G c = Some stats \<and> MaxRange stats < real_of_int k / real_of_int tot
          \<and> 5 / 1000 < real_of_int k / real_of_int tot)) \<and>
   (p \<in> set (collectHighStandalone (buildTrie ws) th) \<longleftrightarrow>
      nodeAt (root (buildTrie ws)) p \<noteq> None \<and>
      th < CountStandaloneOccurrences (buildTrie ws) p) \<and>
   (\<exists>ws'. fst (LoadCredentialsFromFile path content NewTrie) = buildTrie ws') \<and>
   (suffix passwordsSuffix name \<longrightarrow>
      (let passTrie = fst (LoadCredentialsFromFile path content NewTrie) in
       \<exists>written logged blocks.
         ScanForSuspiciousPrefixes G srcDir th = Inr (written, logged) \<and>
         ScanForSuspiciousPrefixes G (srcDir @ [Visited path name content]) th =
           Inr (written @ [\<lparr> reportFile = name, reportBlocks = blocks \<rparr>],
                logged @ snd (LoadCredentialsFromFile path content NewTrie)) \<and>
         map reportPrefix blocks =
           filter (\<lambda>q. \<exists>e \<in> set (collectFollowingChars passTrie q).
                        outlierCondition G (totalFollowing (collectFollowingChars passTrie q)) e)
             (collectHighStandalone passTrie th) \<and>
         (\<forall>r \<in> set blocks.
            r = \<lparr> reportPrefix = reportPrefix r,
                  reportStandalone = CountStandaloneOccurrences passTrie (reportPrefix r),
                  reportTotalFollowing =
                    totalFollowing (collectFollowingChars passTrie (reportPrefix r)),
                  reportOutliers =
                    map (\<lambda>(c, k).
                           (c, observedPercentage k
                                 (totalFollowing (collectFollowingChars passTrie (reportPrefix r)))
                               * 100))
                      (filter
                         (outlierCondition G
                            (totalFollowing (collectFollowingChars passTrie (reportPrefix r))))
                         (collectFollowingChars passTrie (reportPrefix r))) \<rparr>)))"
proof -
  let ?T = "fst (LoadCredentialsFromFile path content NewTrie)"
  let ?blocks = "List.map_filter (scanPrefix G ?T) (collectHighStandalone ?T th)"
  have loop: "foldl (outlierStep G (totalFollowing (collectFollowingChars (buildTrie ws) p)))
        (False, []) (collectFollowingChars (buildTrie ws) p) =
     ((\<exists>e \<in> set (collectFollowingChars (buildTrie ws) p).
          outlierCondition G (totalFollowing (collectFollowingChars (buildTrie ws) p)) e),
      map (\<lambda>(c, k).
             (c, observedPercentage k (totalFollowing (collectFollowingChars (buildTrie ws) p)) * 100))
        (filter (outlierCondition G (totalFollowing (collectFollowingChars (buildTrie ws) p)))
           (collectFollowingChars (buildTrie ws) p)))"
    by (simp add: outlier_foldl)
  have block: "scanPrefix G (buildTrie ws) p \<noteq> None \<longleftrightarrow>
      (\<exists>e \<in> set (collectFollowingChars (buildTrie ws) p).
          outlierCondition G (totalFollowing (collectFollowingChars (buildTrie ws) p)) e)"
    by (simp add: scanPrefix_cases)
  have cond: "\<forall>c k. outlierCondition G tot (c, k) \<longleftrightarrow>
      (\<exists>stats. G c = Some stats \<and> MaxRange stats < real_of_int k / real_of_int tot
          \<and> 5 / 1000 < real_of_int k / real_of_int tot)"
    by (auto simp add: outlierCondition_def observedPercentage_def split: option.splits)
  have report: "\<exists>written logged blocks.
         ScanForSuspiciousPrefixes G srcDir th = Inr (written, logged) \<and>
         ScanForSuspiciousPrefixes G (srcDir @ [Visited path name content]) th =
           Inr (written @ [\<lparr> reportFile = name, reportBlocks = blocks \<rparr>],
                logged @ snd (LoadCredentialsFromFile path content NewTrie)) \<and>
         map reportPrefix blocks =
           filter (\<lambda>q. \<exists>e \<in> set (collectFollowingChars ?T q).
                        outlierCondition G (totalFollowing (collectFollowingChars ?T q)) e)
             (collectHighStandalone ?T th) \<and>
         (\<forall>r \<in> set blocks.
            r = \<lparr> reportPrefix = reportPrefix r,
                  reportStandalone = CountStandaloneOccurrences ?T (reportPrefix r),
                  reportTotalFollowing =
                    totalFollowing (collectFollowingChars ?T (reportPrefix r)),
                  reportOutliers =
                    map (\<lambda>(c, k).
                           (c, observedPercentage k
                                 (totalFollowing (collectFollowingChars ?T (reportPrefix r)))
                               * 100))
                      (filter
                         (outlierCondition G
                            (totalFollowing (collectFollowingChars ?T (reportPrefix r))))
                         (collectFollowingChars ?T (reportPrefix r))) \<rparr>)"
    if s: "suffix passwordsSuffix name"
  proof -
    obtain st where "ScanForSuspiciousPrefixes G srcDir th = Inr st"
      unfolding ScanForSuspiciousPrefixes_def
      using Walk_never_fails [of "suspiciousWalkFn G th" "([], [])" srcDir]
        suspicious_never_fail [of G th]
      by blast
    then obtain written logged where
      a: "ScanForSuspiciousPrefixes G srcDir th = Inr (written, logged)"
      by (cases st) simp
    have b: "ScanForSuspiciousPrefixes G (srcDir @ [Visited path name content]) th =
        Inr (written @ [\<lparr> reportFile = name, reportBlocks = ?blocks \<rparr>],
             logged @ snd (LoadCredentialsFromFile path content NewTrie))"
      unfolding suspicious_walk_last a using suspicious_visited [OF s] by simp
    have c: "\<forall>r \<in> set ?blocks.
            r = \<lparr> reportPrefix = reportPrefix r,
                  reportStandalone = CountStandaloneOccurrences ?T (reportPrefix r),
                  reportTotalFollowing =
                    totalFollowing (collectFollowingChars ?T (reportPrefix r)),
                  reportOutliers =
                    map (\<lambda>(c, k).
                           (c, observedPercentage k
                                 (totalFollowing (collectFollowingChars ?T (reportPrefix r)))
                               * 100))
                      (filter
                         (outlierCondition G
                            (totalFollowing (collectFollowingChars ?T (reportPrefix r))))
                         (collectFollowingChars ?T (reportPrefix r))) \<rparr>"
    proof
      fix r
      assume "r \<in> set ?blocks"
      then have "scanPrefix G ?T (reportPrefix r) = Some r"
        using blocks_contents by blast
      then show "r = \<lparr> reportPrefix = reportPrefix r,
                  reportStandalone = CountStandaloneOccurrences ?T (reportPrefix r),
                  reportTotalFollowing =
                    totalFollowing (collectFollowingChars ?T (reportPrefix r)),
                  reportOutliers =
                    map (\<lambda>(c, k).
                           (c, observedPercentage k
                                 (totalFollowing (collectFollowingChars ?T (reportPrefix r)))
                               * 100))
                      (filter
                         (outlierCondition G
                            (totalFollowing (collectFollowingChars ?T (reportPrefix r))))
                         (collectFollowingChars ?T (reportPrefix r))) \<rparr>"
        unfolding scanPrefix_cases [of G ?T "reportPrefix r"]
        by (simp split: if_splits)
    qed
    show ?thesis
      using a b c blocks_prefixes [of G ?T "collectHighStandalone ?T th"] by blast
  qed
  show ?thesis
    unfolding Let_def
    using loop block cond qualifying_iff [of p ws th] loaded_trie_built [of path content] report
    by blast
qed

theorem outlier_iff_witness:
  "scanPrefix
     [2 \<mapsto> \<lparr> Average = 0, MinRange = 0, MaxRange = 1 / 3 \<rparr>,
      3 \<mapsto> \<lparr> Average = 0, MinRange = 0, MaxRange = 1 / 4 \<rparr>,
      5 \<mapsto> \<lparr> Average = 0, MinRange = 0, MaxRange = 1 / 1000 \<rparr>]
     (buildTrie [[7], [7], [7, 2], [7, 3], [7, 4]]) [7] \<noteq> None \<and>
   outlierCondition
     [2 \<mapsto> \<lparr> Average = 0, MinRange = 0, MaxRange = 1 / 3 \<rparr>,
      3 \<mapsto> \<lparr> Average = 0, MinRange = 0, MaxRange = 1 / 4 \<rparr>,
      5 \<mapsto> \<lparr> Average = 0, MinRange = 0, MaxRange = 1 / 1000 \<rparr>] 3 (3, 1) \<and>
   \<not> outlierCondition
     [2 \<mapsto> \<lparr> Average = 0, MinRange = 0, MaxRange = 1 / 3 \<rparr>,
      3 \<mapsto> \<lparr> Average = 0, MinRange = 0, MaxRange = 1 / 4 \<rparr>,
      5 \<mapsto> \<lparr> Average = 0, MinRange = 0, MaxRange = 1 / 1000 \<rparr>] 3 (2, 1) \<and>
   \<not> outlierCondition
     [2 \<mapsto> \<lparr> Average = 0, MinRange = 0, MaxRange = 1 / 3 \<rparr>,
      3 \<mapsto> \<lparr> Average = 0, MinRange = 0, MaxRange = 1 / 4 \<rparr>,
      5 \<mapsto> \<lparr> Average = 0, MinRange = 0, MaxRange = 1 / 1000 \<rparr>] 3 (4, 1) \<and>
   \<not> outlierCondition
     [2 \<mapsto> \<lparr> Average = 0, MinRange = 0, MaxRange = 1 / 3 \<rparr>,
      3 \<mapsto> \<lparr> Average = 0, MinRange = 0, MaxRange = 1 / 4 \<rparr>,
      5 \<mapsto> \<lparr> Average = 0, MinRange = 0, MaxRange = 1 / 1000 \<rparr>] 200 (5, 1) \<and>
   outlierCondition
     [2 \<mapsto> \<lparr> Average = 0, MinRange = 0, MaxRange = 1 / 3 \<rparr>,
      3 \<mapsto> \<lparr> Average = 0, MinRange = 0, MaxRange = 1 / 4 \<rparr>,
      5 \<mapsto> \<lparr> Average = 0, MinRange = 0, MaxRange = 1 / 1000 \<rparr>] 200 (5, 2) \<and>
   suffix passwordsSuffix ''a_passwords.txt'' \<and>
   [7] \<in> set (collectHighStandalone (buildTrie [[7], [7], [7, 2], [7, 3], [7, 4]]) 1) \<and>
   [7] \<notin> set (collectHighStandalone (buildTrie [[7], [7], [7, 2], [7, 3], [7, 4]]) 2) \<and>
   ScanForSuspiciousPrefixes
     [2 \<mapsto> \<lparr> Average = 0, MinRange = 0, MaxRange = 1 / 3 \<rparr>,
      3 \<mapsto> \<lparr> Average = 0, MinRange = 0, MaxRange = 1 / 4 \<rparr>,
      5 \<mapsto> \<lparr> Average = 0, MinRange = 0, MaxRange = 1 / 1000 \<rparr>]
     ([] @ [Visited ''d/a_passwords.txt'' ''a_passwords.txt''
        (Scanned [[0x75, 0x3A, 7], [0x75, 0x3A, 7], [0x75, 0x3A, 7, 2], [0x75, 0x3A, 7, 3],
                  [0x75, 0x3A, 7, 4]] False)]) 1 =
     Inr ([\<lparr> reportFile = ''a_passwords.txt'',
             reportBlocks =
               [\<lparr> reportPrefix = [7], reportStandalone = 2, reportTotalFollowing = 3,
                   reportOutliers = [(3, 100 / 3)] \<rparr>] \<rparr>], []) \<and>
   ScanForSuspiciousPrefixes
     [2 \<mapsto> \<lparr> Average = 0, MinRange = 0, MaxRange = 1 / 3 \<rparr>,
      3 \<mapsto> \<lparr> Average = 0, MinRange = 0, MaxRange = 1 / 4 \<rparr>,
      5 \<mapsto> \<lparr> Average = 0, MinRange = 0, MaxRange = 1 / 1000 \<rparr>]
     ([] @ [Visited ''d/a_passwords.txt'' ''a_passwords.txt''
        (Scanned [[0x75, 0x3A, 7], [0x75, 0x3A, 7], [0x75, 0x3A, 7, 2], [0x75, 0x3A, 7, 3],
                  [0x75, 0x3A, 7, 4]] False)]) 2 =
     Inr ([\<lparr> reportFile = ''a_passwords.txt'', reportBlocks = [] \<rparr>], [])"
proof -
  let ?G = "[2 \<mapsto> \<lparr> Average = 0, MinRange = 0, MaxRange = 1 / 3 \<rparr>,
      3 \<mapsto> \<lparr> Average = 0, MinRange = 0, MaxRange = 1 / 4 \<rparr>,
      5 \<mapsto> \<lparr> Average = 0, MinRange = 0, MaxRange = 1 / 1000 \<rparr>] :: rune \<rightharpoonup> CharacterStats"
  let ?content = "Scanned [[0x75, 0x3A, 7], [0x75, 0x3A, 7], [0x75, 0x3A, 7, 2], [0x75, 0x3A, 7, 3],
                  [0x75, 0x3A, 7, 4]] False"
  let ?ws = "[[7], [7], [7, 2], [7, 3], [7, 4]] :: rune list list"
  have s: "suffix passwordsSuffix ''a_passwords.txt''"
    by (simp add: passwordsSuffix_def suffix_to_prefix)
  have load: "LoadCredentialsFromFile ''d/a_passwords.txt'' ?content NewTrie = (buildTrie ?ws, [])"
    by (simp add: LoadCredentialsFromFile_def processLine_def colon_def TrimSpace_def IsSpace_def
          buildTrie_def Let_def)
  have following: "collectFollowingChars (buildTrie ?ws) [7] = [(2, 1), (3, 1), (4, 1)]"
    by (simp add: collectFollowingChars_def buildTrie_def Insert_def NewTrie_def newNode_def)
  have count: "CountStandaloneOccurrences (buildTrie ?ws) [7] = 2"
    by (simp add: CountStandaloneOccurrences_def buildTrie_def Insert_def NewTrie_def newNode_def)
  have q1: "collectHighStandalone (buildTrie ?ws) 1 = [[7]]"
    by (simp add: collectHighStandalone_def buildTrie_def Insert_def NewTrie_def newNode_def)
  have q2: "collectHighStandalone (buildTrie ?ws) 2 = []"
    by (simp add: collectHighStandalone_def buildTrie_def Insert_def NewTrie_def newNode_def)
  have tot: "totalFollowing [(2, 1), (3, 1), (4, 1)] = 3"
    by (simp add: totalFollowing_def)
  have o2: "\<not> outlierCondition ?G 3 (2, 1)"
    by (simp add: outlierCondition_def observedPercentage_def)
  have o3: "outlierCondition ?G 3 (3, 1)"
    by (simp add: outlierCondition_def observedPercentage_def)
  have o4: "\<not> outlierCondition ?G 3 (4, 1)"
    by (simp add: outlierCondition_def observedPercentage_def)
  have empty: "ScanForSuspiciousPrefixes ?G [] th = Inr ([], [])" for th
    by (simp add: ScanForSuspiciousPrefixes_def)
  note t1 = outlier_iff [where G = ?G and ws = ?ws and p = "[7]" and tot = 3 and th = 1
      and path = "''d/a_passwords.txt''" and content = ?content and name = "''a_passwords.txt''"
      and srcDir = "[]"]
  note t2 = outlier_iff [where G = ?G and ws = ?ws and p = "[7]" and tot = 200 and th = 2
      and path = "''d/a_passwords.txt''" and content = ?content and name = "''a_passwords.txt''"
      and srcDir = "[]"]
  have r1: "ScanForSuspiciousPrefixes ?G ([] @ [Visited ''d/a_passwords.txt'' ''a_passwords.txt''
        ?content]) 1 =
     Inr ([\<lparr> reportFile = ''a_passwords.txt'',
             reportBlocks =
               [\<lparr> reportPrefix = [7], reportStandalone = 2, reportTotalFollowing = 3,
                   reportOutliers = [(3, 100 / 3)] \<rparr>] \<rparr>], [])"
  proof -
    obtain blocks where
      b: "ScanForSuspiciousPrefixes ?G ([] @ [Visited ''d/a_passwords.txt'' ''a_passwords.txt''
            ?content]) 1 =
          Inr ([\<lparr> reportFile = ''a_passwords.txt'', reportBlocks = blocks \<rparr>], [])"
      and m: "map reportPrefix blocks = [[7]]"
      and e: "\<forall>r \<in> set blocks.
            r = \<lparr> reportPrefix = reportPrefix r,
                  reportStandalone = CountStandaloneOccurrences (buildTrie ?ws) (reportPrefix r),
                  reportTotalFollowing =
                    totalFollowing (collectFollowingChars (buildTrie ?ws) (reportPrefix r)),
                  reportOutliers =
                    map (\<lambda>(c, k).
                           (c, observedPercentage k
                                 (totalFollowing (collectFollowingChars (buildTrie ?ws) (reportPrefix r)))
                               * 100))
                      (filter
                         (outlierCondition ?G
                            (totalFollowing (collectFollowingChars (buildTrie ?ws) (reportPrefix r))))
                         (collectFollowingChars (buildTrie ?ws) (reportPrefix r))) \<rparr>"
      using t1 s unfolding Let_def load fst_conv snd_conv empty q1
      by (auto simp add: following tot o2 o3 o4)
    obtain r where bl: "blocks = [r]" and rp: "reportPrefix r = [7]"
      using m by (cases blocks) auto
    have "r = \<lparr> reportPrefix = [7], reportStandalone = 2, reportTotalFollowing = 3,
                   reportOutliers = [(3, 100 / 3)] \<rparr>"
      using e unfolding bl by (simp add: rp following tot o2 o3 o4 count observedPercentage_def)
    then show ?thesis using b bl by simp
  qed
  have r2: "ScanForSuspiciousPrefixes ?G ([] @ [Visited ''d/a_passwords.txt'' ''a_passwords.txt''
        ?content]) 2 =
     Inr ([\<lparr> reportFile = ''a_passwords.txt'', reportBlocks = [] \<rparr>], [])"
    using t2 s unfolding Let_def load fst_conv snd_conv empty q2
    by auto
  have old: "scanPrefix ?G (buildTrie ?ws) [7] \<noteq> None \<and>
     outlierCondition ?G 3 (3, 1) \<and> \<not> outlierCondition ?G 3 (2, 1) \<and>
     \<not> outlierCondition ?G 3 (4, 1) \<and> \<not> outlierCondition ?G 200 (5, 1) \<and>
     outlierCondition ?G 200 (5, 2)"
    using t1 t2 by (simp add: following tot)
  show ?thesis
    using old s r1 r2 by (simp add: q1 q2)
qed

end
